theory Spec2Isabelle
  imports Main "HOL-Library.Multiset" "HOL-Library.Word"
begin

section \<open>Threads, condition variables and atomic steps\<close>

text \<open>
  The primitives of \<^verbatim>\<open>osgEarth/Threading\<close> are modelled as transition systems.
  The state of a primitive is a record of its member variables together with the
  position of every thread that is inside one of its methods. A step is one of
  \<^item> a critical section of a method, from taking the primitive's \<^verbatim>\<open>Mutex\<close> to
    releasing it (by leaving the scope of the \<^verbatim>\<open>std::unique_lock\<close>, or by blocking
    in \<^verbatim>\<open>std::condition_variable_any::wait\<close>, which releases the mutex);
  \<^item> a statement executed outside any critical section;
  \<^item> a step of the environment: a timed wait running out, or a spurious wake-up,
    which the C++ standard permits for \<^verbatim>\<open>wait\<close> and \<^verbatim>\<open>wait_for\<close>.
  A schedule is a list of steps; every interleaving of the threads is some schedule.
  A thread is named by its index in the list of thread positions; a step that names a
  thread that does not exist, or a thread that is not at the position the step starts
  from, leaves the state as it is.
\<close>

text \<open>The result of \<^verbatim>\<open>std::condition_variable_any::wait_for\<close>.\<close>

datatype cv_status = no_timeout | timeout

section \<open>Event\<close>

text \<open>
  \<^verbatim>\<open>
  bool Event::wait()                      bool Event::wait(unsigned timeout_ms)
  {                                       {
      std::unique_lock<Mutex> lock(_m);       std::unique_lock<Mutex> lock(_m);
      if (!_set)                              if (!_set)
          _cond.wait(lock);                   {
      return true;                                std::cv_status result = _cond.wait_for(lock, ...);
  }                                               return result == std::cv_status::no_timeout ? true : false;
                                              }
  bool Event::waitAndReset()                  return true;
  {                                       }
      std::unique_lock<Mutex> lock(_m);
      if (!_set)                          void Event::set()
          _cond.wait(lock);               {
      _set = false;                           std::unique_lock<Mutex> lock(_m);
      return true;                            if (!_set) {
  }                                               _set = true;
                                                  _cond.notify_all();
  void Event::reset()                         }
  {                                       }
      std::unique_lock<Mutex> lock(_m);
      _set = false;                       Event::~Event()
  }                                       {
                                              _set = false;
                                              for(int i=0; i<255; ++i)  // workaround buggy broadcast
                                                  _cond.notify_all();
                                          }
  \<close>
  The destructor ends the lifetime of the object: right after its broadcasts the
  members \<^verbatim>\<open>_cond\<close> and \<^verbatim>\<open>_m\<close> are destroyed, so a thread that is still inside a
  method of the event then takes a destroyed mutex, and what it does is not defined.
  The schedules below are the schedules of a live event; the destructor is not one of
  their steps.
\<close>

text \<open>The three blocking methods of an Event.\<close>

datatype ev_call = Wait | WaitTimed | WaitAndReset

text \<open>
  Where a thread is with respect to an Event: outside every call (\<open>Idle\<close>, or
  \<open>Returned c r\<close> when its last call \<open>c\<close> returned \<open>r\<close>), blocked inside
  \<^verbatim>\<open>_cond.wait\<close> or \<^verbatim>\<open>_cond.wait_for\<close> with the mutex released, or unblocked and
  about to take the mutex again (\<open>Woken c st\<close>, where \<open>st\<close> is what \<^verbatim>\<open>wait_for\<close>
  would return if the thread ran now: \<open>timeout\<close> once its deadline has passed).
\<close>

datatype ev_thread = Idle | Blocked ev_call | Woken ev_call cv_status | Returned ev_call bool

record Event =
  ev_set :: bool
  ev_threads :: "ev_thread list"

definition Event_init :: "nat \<Rightarrow> Event" where
  "Event_init n = \<lparr>ev_set = False, ev_threads = replicate n Idle\<rparr>"

fun callable :: "ev_thread \<Rightarrow> bool" where
  "callable Idle = True"
| "callable (Returned c r) = True"
| "callable (Blocked c) = False"
| "callable (Woken c st) = False"

fun is_blocked :: "ev_thread \<Rightarrow> bool" where
  "is_blocked (Blocked c) = True"
| "is_blocked th = False"

text \<open>The thread is inside \<^verbatim>\<open>_cond.wait_for\<close>: blocked there, or unblocked and not yet
  running again.\<close>

fun in_wait_for :: "ev_thread \<Rightarrow> bool" where
  "in_wait_for (Blocked c) = (c = WaitTimed)"
| "in_wait_for (Woken c st) = (c = WaitTimed)"
| "in_wait_for th = False"

text \<open>\<^verbatim>\<open>_cond.notify_all()\<close>: every thread blocked on the condition variable is unblocked.\<close>

fun notify :: "ev_thread \<Rightarrow> ev_thread" where
  "notify (Blocked c) = Woken c no_timeout"
| "notify th = th"

definition notify_all :: "Event \<Rightarrow> Event" where
  "notify_all e = e\<lparr>ev_threads := map notify (ev_threads e)\<rparr>"

definition Event_set :: "Event \<Rightarrow> Event" where
  "Event_set e = (if \<not> ev_set e then notify_all (e\<lparr>ev_set := True\<rparr>) else e)"

definition Event_reset :: "Event \<Rightarrow> Event" where
  "Event_reset e = e\<lparr>ev_set := False\<rparr>"

definition at_thread :: "nat \<Rightarrow> ev_thread \<Rightarrow> Event \<Rightarrow> Event" where
  "at_thread t th e = e\<lparr>ev_threads := (ev_threads e)[t := th]\<rparr>"

text \<open>
  The first critical section of the three blocking methods, for thread \<open>t\<close>: up to the
  return when the flag is set, up to the block in \<^verbatim>\<open>_cond.wait\<close> otherwise.
\<close>

definition Event_wait :: "nat \<Rightarrow> Event \<Rightarrow> Event" where
  "Event_wait t e = (if \<not> ev_set e then at_thread t (Blocked Wait) e
                     else at_thread t (Returned Wait True) e)"

definition Event_wait_timed :: "nat \<Rightarrow> Event \<Rightarrow> Event" where
  "Event_wait_timed t e = (if \<not> ev_set e then at_thread t (Blocked WaitTimed) e
                           else at_thread t (Returned WaitTimed True) e)"

definition Event_waitAndReset :: "nat \<Rightarrow> Event \<Rightarrow> Event" where
  "Event_waitAndReset t e = (if \<not> ev_set e then at_thread t (Blocked WaitAndReset) e
                             else at_thread t (Returned WaitAndReset True) (e\<lparr>ev_set := False\<rparr>))"

text \<open>
  The second critical section, entered when the unblocked thread has the mutex again:
  the rest of the method after \<^verbatim>\<open>_cond.wait\<close> or \<^verbatim>\<open>_cond.wait_for\<close>. None of the
  three methods reads \<^verbatim>\<open>_set\<close> there.
\<close>

fun Event_resume :: "nat \<Rightarrow> Event \<Rightarrow> Event" where
  "Event_resume t e =
     (case ev_threads e ! t of
        Woken Wait st \<Rightarrow> at_thread t (Returned Wait True) e
      | Woken WaitTimed st \<Rightarrow> at_thread t (Returned WaitTimed (st = no_timeout)) e
      | Woken WaitAndReset st \<Rightarrow> at_thread t (Returned WaitAndReset True) (e\<lparr>ev_set := False\<rparr>)
      | _ \<Rightarrow> e)"

text \<open>
  The environment. The timeout of the \<^verbatim>\<open>wait_for\<close> of thread \<open>t\<close> elapses: a thread that
  is still blocked is unblocked by it; \<^verbatim>\<open>wait_for\<close> compares the clock with its deadline
  when it returns, so a thread that was unblocked in time but has not run again yet will
  report \<^verbatim>\<open>timeout\<close> as well. A blocked thread can also wake spuriously.
\<close>

fun Event_timeout :: "nat \<Rightarrow> Event \<Rightarrow> Event" where
  "Event_timeout t e =
     (case ev_threads e ! t of
        Blocked WaitTimed \<Rightarrow> at_thread t (Woken WaitTimed timeout) e
      | Woken WaitTimed st \<Rightarrow> at_thread t (Woken WaitTimed timeout) e
      | _ \<Rightarrow> e)"

fun Event_spurious :: "nat \<Rightarrow> Event \<Rightarrow> Event" where
  "Event_spurious t e =
     (case ev_threads e ! t of
        Blocked c \<Rightarrow> at_thread t (Woken c no_timeout) e
      | _ \<Rightarrow> e)"

datatype ev_action =
    Call nat ev_call
  | Resume nat
  | CallSet
  | CallReset
  | TimeOut nat
  | Spurious nat

fun ev_step :: "ev_action \<Rightarrow> Event \<Rightarrow> Event" where
  "ev_step (Call t c) e =
     (if t < length (ev_threads e) \<and> callable (ev_threads e ! t)
      then (case c of Wait \<Rightarrow> Event_wait t e
                    | WaitTimed \<Rightarrow> Event_wait_timed t e
                    | WaitAndReset \<Rightarrow> Event_waitAndReset t e)
      else e)"
| "ev_step (Resume t) e = (if t < length (ev_threads e) then Event_resume t e else e)"
| "ev_step CallSet e = Event_set e"
| "ev_step CallReset e = Event_reset e"
| "ev_step (TimeOut t) e = (if t < length (ev_threads e) then Event_timeout t e else e)"
| "ev_step (Spurious t) e = (if t < length (ev_threads e) then Event_spurious t e else e)"

definition ev_run :: "ev_action list \<Rightarrow> Event \<Rightarrow> Event" where
  "ev_run sched e = fold ev_step sched e"

text \<open>While the flag is set no thread is blocked: a thread blocks only when it finds the
  flag clear, and the step that sets the flag unblocks every blocked thread.\<close>

definition ev_inv :: "Event \<Rightarrow> bool" where
  "ev_inv e = (ev_set e \<longrightarrow> (\<forall>th \<in> set (ev_threads e). \<not> is_blocked th))"

subsection \<open>Basic facts\<close>

lemma length_notify_all [simp]: "length (ev_threads (notify_all e)) = length (ev_threads e)"
  by (simp add: notify_all_def)

lemma ev_set_notify_all [simp]: "ev_set (notify_all e) = ev_set e"
  by (simp add: notify_all_def)

lemma not_blocked_notify [simp]: "\<not> is_blocked (notify th)"
  by (cases th) simp_all

lemma notify_not_blocked: "\<not> is_blocked th \<Longrightarrow> notify th = th"
  by (cases th) simp_all

lemma nth_notify_all:
  "t < length (ev_threads e) \<Longrightarrow> ev_threads (notify_all e) ! t = notify (ev_threads e ! t)"
  by (simp add: notify_all_def)

text \<open>
  C5. \<^verbatim>\<open>Event::set()\<close> on an unsignaled event sets the flag and unblocks every blocked
  waiter (none stays blocked); on a signaled event it changes nothing, so no thread is
  notified. \<^verbatim>\<open>Event::reset()\<close> clears the flag from either state and touches no thread.
\<close>

theorem Event_set_reset:
  "(\<not> ev_set e \<longrightarrow>
       ev_set (Event_set e)
     \<and> length (ev_threads (Event_set e)) = length (ev_threads e)
     \<and> (\<forall>t < length (ev_threads e). \<forall>c. ev_threads e ! t = Blocked c
           \<longrightarrow> ev_threads (Event_set e) ! t = Woken c no_timeout)
     \<and> (\<forall>t < length (ev_threads e). \<not> is_blocked (ev_threads e ! t)
           \<longrightarrow> ev_threads (Event_set e) ! t = ev_threads e ! t)
     \<and> (\<forall>th \<in> set (ev_threads (Event_set e)). \<not> is_blocked th))
   \<and> (ev_set e \<longrightarrow> Event_set e = e)
   \<and> \<not> ev_set (Event_reset e)
   \<and> ev_threads (Event_reset e) = ev_threads e"
  by (auto simp: Event_set_def Event_reset_def notify_all_def notify_not_blocked)

theorem Event_set_reset_witness:
  "\<not> ev_set \<lparr>ev_set = False, ev_threads = [Blocked Wait, Idle, Blocked WaitTimed]\<rparr>
   \<and> Event_set \<lparr>ev_set = False, ev_threads = [Blocked Wait, Idle, Blocked WaitTimed]\<rparr>
       = \<lparr>ev_set = True, ev_threads = [Woken Wait no_timeout, Idle, Woken WaitTimed no_timeout]\<rparr>
   \<and> Event_set \<lparr>ev_set = True, ev_threads = [Idle, Returned Wait True]\<rparr>
       = \<lparr>ev_set = True, ev_threads = [Idle, Returned Wait True]\<rparr>
   \<and> Event_reset \<lparr>ev_set = True, ev_threads = [Idle, Returned Wait True]\<rparr>
       = \<lparr>ev_set = False, ev_threads = [Idle, Returned Wait True]\<rparr>"
  using Event_set_reset [of "\<lparr>ev_set = False, ev_threads = [Blocked Wait, Idle, Blocked WaitTimed]\<rparr>"]
    Event_set_reset [of "\<lparr>ev_set = True, ev_threads = [Idle, Returned Wait True]\<rparr>"]
  by (simp add: Event_set_def Event_reset_def notify_all_def)


subsection \<open>Reachable states of an Event\<close>

lemma length_at_thread [simp]: "length (ev_threads (at_thread t th e)) = length (ev_threads e)"
  by (simp add: at_thread_def)

lemma ev_set_at_thread [simp]: "ev_set (at_thread t th e) = ev_set e"
  by (simp add: at_thread_def)

lemma nth_at_thread:
  "u < length (ev_threads e) \<Longrightarrow>
   ev_threads (at_thread t th e) ! u = (if u = t then th else ev_threads e ! u)"
  by (simp add: at_thread_def nth_list_update)

lemma length_ev_step [simp]: "length (ev_threads (ev_step a e)) = length (ev_threads e)"
  by (cases a)
     (auto simp: Event_wait_def Event_wait_timed_def Event_waitAndReset_def Event_set_def
        Event_reset_def at_thread_def notify_all_def
        split: ev_call.splits ev_thread.splits)

lemma length_Event_set [simp]: "length (ev_threads (Event_set e)) = length (ev_threads e)"
  using length_ev_step [of CallSet e] by simp

lemma length_ev_run [simp]: "length (ev_threads (ev_run sched e)) = length (ev_threads e)"
  unfolding ev_run_def by (induction sched arbitrary: e) simp_all

lemma ev_run_Nil [simp]: "ev_run [] e = e"
  by (simp add: ev_run_def)

lemma ev_run_Cons [simp]: "ev_run (a # sched) e = ev_run sched (ev_step a e)"
  by (simp add: ev_run_def)

lemma ev_run_append [simp]: "ev_run (xs @ ys) e = ev_run ys (ev_run xs e)"
  by (simp add: ev_run_def)

lemmas ev_eval = Event_init_def Event_wait_def Event_wait_timed_def Event_set_def
  Event_reset_def notify_all_def at_thread_def

lemma ev_inv_at_thread:
  "ev_inv e \<Longrightarrow> \<not> ev_set e \<or> \<not> is_blocked th \<Longrightarrow> ev_inv (at_thread t th e)"
  by (auto simp: ev_inv_def at_thread_def dest: set_update_subset_insert [THEN subsetD])

lemma ev_inv_step: "ev_inv e \<Longrightarrow> ev_inv (ev_step a e)"
proof (cases a)
  case (Call t c)
  assume "ev_inv e"
  then show ?thesis using Call
    by (cases c) (auto simp: Event_wait_def Event_wait_timed_def Event_waitAndReset_def
        ev_inv_def at_thread_def dest: set_update_subset_insert [THEN subsetD])
next
  case (Resume t)
  assume "ev_inv e"
  then show ?thesis using Resume
    by (auto simp: ev_inv_def at_thread_def split: ev_thread.splits ev_call.splits
        dest: set_update_subset_insert [THEN subsetD])
next
  case CallSet
  assume "ev_inv e"
  then show ?thesis using CallSet by (auto simp: ev_inv_def Event_set_def notify_all_def)
next
  case CallReset
  then show ?thesis by (auto simp: ev_inv_def Event_reset_def)
next
  case (TimeOut t)
  assume "ev_inv e"
  then show ?thesis using TimeOut
    by (auto simp: ev_inv_def at_thread_def split: ev_thread.splits ev_call.splits
        dest: set_update_subset_insert [THEN subsetD])
next
  case (Spurious t)
  assume "ev_inv e"
  then show ?thesis using Spurious
    by (auto simp: ev_inv_def at_thread_def split: ev_thread.splits ev_call.splits
        dest: set_update_subset_insert [THEN subsetD])
qed

lemma ev_inv_run: "ev_inv e \<Longrightarrow> ev_inv (ev_run sched e)"
  by (induction sched arbitrary: e) (simp_all add: ev_inv_step)

lemma ev_inv_init: "ev_inv (Event_init n)"
  by (simp add: ev_inv_def Event_init_def)

lemma blocked_not_set:
  assumes "ev_inv e" "t < length (ev_threads e)" "ev_threads e ! t = Blocked c"
  shows "\<not> ev_set e"
proof
  assume "ev_set e"
  with assms(1) have "\<forall>th \<in> set (ev_threads e). \<not> is_blocked th" by (simp add: ev_inv_def)
  moreover have "ev_threads e ! t \<in> set (ev_threads e)" using assms(2) by simp
  ultimately have "\<not> is_blocked (ev_threads e ! t)" by blast
  then show False using assms(3) by simp
qed

lemma woken_stays:
  assumes "t < length (ev_threads e)" "ev_threads e ! t = Woken c st" "a \<noteq> Resume t"
    "a \<noteq> TimeOut t \<or> c \<noteq> WaitTimed \<or> st = timeout"
  shows "ev_threads (ev_step a e) ! t = Woken c st"
  using assms
  by (cases a)
     (auto simp: Event_wait_def Event_wait_timed_def Event_waitAndReset_def Event_set_def
        Event_reset_def at_thread_def notify_all_def nth_list_update
        split: ev_call.splits ev_thread.splits)

lemma woken_stays_run:
  "t < length (ev_threads e) \<Longrightarrow> ev_threads e ! t = Woken c st \<Longrightarrow> Resume t \<notin> set sched
   \<Longrightarrow> TimeOut t \<notin> set sched \<or> c \<noteq> WaitTimed \<or> st = timeout
   \<Longrightarrow> ev_threads (ev_run sched e) ! t = Woken c st"
proof (induction sched arbitrary: e)
  case Nil
  then show ?case by simp
next
  case (Cons a sched)
  have r: "Resume t \<notin> set sched"
    and o: "TimeOut t \<notin> set sched \<or> c \<noteq> WaitTimed \<or> st = timeout"
    using Cons.prems(3,4) by auto
  have len1: "t < length (ev_threads (ev_step a e))"
    using Cons.prems(1) by (simp only: length_ev_step)
  from Cons.prems have "ev_threads (ev_step a e) ! t = Woken c st"
    by (intro woken_stays) auto
  from Cons.IH [OF len1 this r o] show ?case by (simp only: ev_run_Cons)
qed

lemma resume_woken:
  "t < length (ev_threads e) \<Longrightarrow> ev_threads e ! t = Woken c st \<Longrightarrow>
   ev_threads (ev_step (Resume t) e) ! t =
     Returned c (case c of WaitTimed \<Rightarrow> st = no_timeout | _ \<Rightarrow> True)"
  by (cases c) (simp_all add: at_thread_def)

lemma woken_resume_run:
  assumes "t < length (ev_threads e)" and "ev_threads e ! t = Woken c st"
    and "Resume t \<notin> set rest"
    and "TimeOut t \<notin> set rest \<or> c \<noteq> WaitTimed \<or> st = timeout"
  shows "ev_threads (ev_run (rest @ [Resume t]) e) ! t =
     Returned c (case c of WaitTimed \<Rightarrow> st = no_timeout | _ \<Rightarrow> True)"
proof -
  have "ev_threads (ev_run rest e) ! t = Woken c st"
    using woken_stays_run [OF assms] .
  moreover have "t < length (ev_threads (ev_run rest e))"
    using assms(1) by simp
  ultimately have "ev_threads (ev_step (Resume t) (ev_run rest e)) ! t =
     Returned c (case c of WaitTimed \<Rightarrow> st = no_timeout | _ \<Rightarrow> True)"
    by (rule resume_woken [rotated])
  then show ?thesis by (simp only: ev_run_append ev_run_Cons ev_run_Nil)
qed

lemma blocked_stays:
  assumes "t < length (ev_threads e)" "ev_threads e ! t = Blocked c"
    "a \<noteq> CallSet" "a \<noteq> Spurious t" "a \<noteq> TimeOut t"
  shows "ev_threads (ev_step a e) ! t = Blocked c"
  using assms
  by (cases a)
     (auto simp: Event_wait_def Event_wait_timed_def Event_waitAndReset_def Event_set_def
        Event_reset_def at_thread_def notify_all_def nth_list_update
        split: ev_call.splits ev_thread.splits)

lemma in_wait_for_stays:
  assumes "t < length (ev_threads e)" "in_wait_for (ev_threads e ! t)" "a \<noteq> Resume t"
  shows "in_wait_for (ev_threads (ev_step a e) ! t)"
proof (cases "ev_threads e ! t")
  case (Blocked c)
  then show ?thesis using assms
    by (cases a)
       (auto simp: Event_wait_def Event_wait_timed_def Event_waitAndReset_def Event_set_def
          Event_reset_def at_thread_def notify_all_def nth_list_update
          split: ev_call.splits ev_thread.splits)
next
  case (Woken c st)
  then show ?thesis using assms
    by (cases a)
       (auto simp: Event_wait_def Event_wait_timed_def Event_waitAndReset_def Event_set_def
          Event_reset_def at_thread_def notify_all_def nth_list_update
          split: ev_call.splits ev_thread.splits)
qed (use assms in simp_all)

lemma timeout_in_wait_for:
  assumes "t < length (ev_threads e)" "in_wait_for (ev_threads e ! t)"
  shows "ev_threads (ev_step (TimeOut t) e) ! t = Woken WaitTimed timeout"
  using assms by (cases "ev_threads e ! t") (simp_all add: at_thread_def)

lemma timed_out_run:
  "t < length (ev_threads e) \<Longrightarrow> in_wait_for (ev_threads e ! t) \<Longrightarrow> Resume t \<notin> set rest
   \<Longrightarrow> TimeOut t \<in> set rest
   \<Longrightarrow> ev_threads (ev_run rest e) ! t = Woken WaitTimed timeout"
proof (induction rest arbitrary: e)
  case Nil
  then show ?case by simp
next
  case (Cons a rest)
  have len1: "t < length (ev_threads (ev_step a e))"
    using Cons.prems(1) by (simp only: length_ev_step)
  have r: "Resume t \<notin> set rest" and na: "a \<noteq> Resume t"
    using Cons.prems(3) by auto
  show ?case
  proof (cases "a = TimeOut t")
    case True
    have w: "ev_threads (ev_step a e) ! t = Woken WaitTimed timeout"
      unfolding True using Cons.prems(1,2) by (rule timeout_in_wait_for)
    have "ev_threads (ev_run rest (ev_step a e)) ! t = Woken WaitTimed timeout"
      using woken_stays_run [OF len1 w r] by simp
    then show ?thesis by (simp only: ev_run_Cons)
  next
    case False
    then have m: "TimeOut t \<in> set rest" using Cons.prems(4) by auto
    have i: "in_wait_for (ev_threads (ev_step a e) ! t)"
      using in_wait_for_stays [OF Cons.prems(1,2) na] .
    have "ev_threads (ev_run rest (ev_step a e)) ! t = Woken WaitTimed timeout"
      using Cons.IH [OF len1 i r m] .
    then show ?thesis by (simp only: ev_run_Cons)
  qed
qed

lemma in_time_stays:
  assumes "t < length (ev_threads e)"
    "ev_threads e ! t = Blocked WaitTimed \<or> ev_threads e ! t = Woken WaitTimed no_timeout"
    "a \<noteq> Resume t" "a \<noteq> TimeOut t"
  shows "ev_threads (ev_step a e) ! t = Blocked WaitTimed
       \<or> ev_threads (ev_step a e) ! t = Woken WaitTimed no_timeout"
  using assms
  by (cases a)
     (auto simp: Event_wait_def Event_wait_timed_def Event_waitAndReset_def Event_set_def
        Event_reset_def at_thread_def notify_all_def nth_list_update
        split: ev_call.splits ev_thread.splits)

lemma in_time_run:
  "t < length (ev_threads e) \<Longrightarrow>
   ev_threads e ! t = Blocked WaitTimed \<or> ev_threads e ! t = Woken WaitTimed no_timeout \<Longrightarrow>
   Resume t \<notin> set rest \<Longrightarrow> TimeOut t \<notin> set rest \<Longrightarrow>
   ev_threads (ev_run rest e) ! t = Blocked WaitTimed
     \<or> ev_threads (ev_run rest e) ! t = Woken WaitTimed no_timeout"
proof (induction rest arbitrary: e)
  case Nil
  then show ?case by simp
next
  case (Cons a rest)
  have len1: "t < length (ev_threads (ev_step a e))"
    using Cons.prems(1) by (simp only: length_ev_step)
  have na: "a \<noteq> Resume t" "a \<noteq> TimeOut t"
    and r: "Resume t \<notin> set rest" "TimeOut t \<notin> set rest"
    using Cons.prems(3,4) by auto
  have "ev_threads (ev_step a e) ! t = Blocked WaitTimed
       \<or> ev_threads (ev_step a e) ! t = Woken WaitTimed no_timeout"
    using in_time_stays [OF Cons.prems(1,2) na] .
  from Cons.IH [OF len1 this r] show ?case by (simp only: ev_run_Cons)
qed

lemma notify_eq_Returned [simp]: "notify th = Returned c r \<longleftrightarrow> th = Returned c r"
  by (cases th) auto








text \<open>
  C7, as stated: \<^verbatim>\<open>wait(timeout)\<close> returns true if the event becomes signaled before
  the timeout elapses. Thread 0 calls \<^verbatim>\<open>wait(timeout)\<close> on an unsignaled event and
  blocks in \<^verbatim>\<open>wait_for\<close>; \<^verbatim>\<open>set()\<close> signals the event and unblocks the thread before
  the timeout has elapsed; the timeout elapses before thread 0 runs again; \<^verbatim>\<open>wait_for\<close>
  then reports \<^verbatim>\<open>timeout\<close>, and \<^verbatim>\<open>wait(timeout)\<close>, which returns what \<^verbatim>\<open>wait_for\<close>
  reports and does not read \<^verbatim>\<open>_set\<close> again, returns false while the flag is set.
\<close>

theorem Event_wait_timeout_counterexample:
  "ev_run [Call 0 WaitTimed] (Event_init 1)
       = \<lparr>ev_set = False, ev_threads = [Blocked WaitTimed]\<rparr>
   \<and> ev_run [Call 0 WaitTimed, CallSet] (Event_init 1)
       = \<lparr>ev_set = True, ev_threads = [Woken WaitTimed no_timeout]\<rparr>
   \<and> ev_run [Call 0 WaitTimed, CallSet, TimeOut 0] (Event_init 1)
       = \<lparr>ev_set = True, ev_threads = [Woken WaitTimed timeout]\<rparr>
   \<and> ev_run [Call 0 WaitTimed, CallSet, TimeOut 0, Resume 0] (Event_init 1)
       = \<lparr>ev_set = True, ev_threads = [Returned WaitTimed False]\<rparr>"
  by (simp add: Event_init_def Event_wait_timed_def Event_set_def notify_all_def at_thread_def)

text \<open>
  C7, amended. In every state \<open>e\<close> that a schedule reaches from a fresh event, for
  every thread \<open>t\<close>: \<^verbatim>\<open>wait(timeout)\<close> called while the flag is set returns true at
  once and changes nothing else (the thread never blocks); called while the flag is
  clear it blocks in \<^verbatim>\<open>wait_for\<close>, and stays blocked under every step that is not a
  wake-up or its timeout. From there the call returns what \<^verbatim>\<open>wait_for\<close> reports when
  the thread runs again, whatever the other threads do in between:
  \<^item> if \<^verbatim>\<open>set()\<close> runs while the thread is blocked and the thread runs again before
    its timeout has elapsed, the call returns true;
  \<^item> if the timeout has elapsed when the thread runs again, the call returns false,
    whether or not \<^verbatim>\<open>set()\<close> signaled the event before the timeout elapsed;
  \<^item> as long as the timeout has not elapsed the call does not return false: the thread
    is still blocked, or the call returns true.
  Time is the order of steps: the timeout elapsing is the step \<open>TimeOut t\<close>.
\<close>

theorem Event_wait_timeout:
  assumes "e = ev_run sched (Event_init n)" and "t < n"
  shows "(callable (ev_threads e ! t) \<and> ev_set e \<longrightarrow>
            ev_step (Call t WaitTimed) e = at_thread t (Returned WaitTimed True) e)
       \<and> (callable (ev_threads e ! t) \<and> \<not> ev_set e \<longrightarrow>
            ev_threads (ev_step (Call t WaitTimed) e) ! t = Blocked WaitTimed)
       \<and> (ev_threads e ! t = Blocked WaitTimed \<longrightarrow>
            (\<forall>a. a \<noteq> CallSet \<and> a \<noteq> Spurious t \<and> a \<noteq> TimeOut t
                 \<longrightarrow> ev_threads (ev_step a e) ! t = Blocked WaitTimed))
       \<and> (\<forall>rest. ev_threads e ! t = Blocked WaitTimed
              \<and> Resume t \<notin> set rest \<and> TimeOut t \<notin> set rest \<longrightarrow>
            ev_set (ev_step CallSet e)
          \<and> ev_threads (ev_run (CallSet # rest @ [Resume t]) e) ! t = Returned WaitTimed True)
       \<and> (\<forall>rest. ev_threads e ! t = Blocked WaitTimed
              \<and> Resume t \<notin> set rest \<and> TimeOut t \<in> set rest \<longrightarrow>
            ev_threads (ev_run (rest @ [Resume t]) e) ! t = Returned WaitTimed False)
       \<and> (\<forall>rest. ev_threads e ! t = Blocked WaitTimed
              \<and> Resume t \<notin> set rest \<and> TimeOut t \<notin> set rest \<longrightarrow>
            ev_threads (ev_run (rest @ [Resume t]) e) ! t = Blocked WaitTimed
          \<or> ev_threads (ev_run (rest @ [Resume t]) e) ! t = Returned WaitTimed True)"
proof -
  have len: "t < length (ev_threads e)"
    using assms by (simp add: Event_init_def)
  have inv: "ev_inv e"
    using assms(1) by (simp add: ev_inv_run ev_inv_init)
  have c1: "callable (ev_threads e ! t) \<and> ev_set e \<longrightarrow>
            ev_step (Call t WaitTimed) e = at_thread t (Returned WaitTimed True) e"
    using len by (simp add: Event_wait_timed_def)
  have c2: "callable (ev_threads e ! t) \<and> \<not> ev_set e \<longrightarrow>
            ev_threads (ev_step (Call t WaitTimed) e) ! t = Blocked WaitTimed"
    using len by (simp add: Event_wait_timed_def at_thread_def)
  have c3: "ev_threads e ! t = Blocked WaitTimed \<longrightarrow>
            (\<forall>a. a \<noteq> CallSet \<and> a \<noteq> Spurious t \<and> a \<noteq> TimeOut t
                 \<longrightarrow> ev_threads (ev_step a e) ! t = Blocked WaitTimed)"
    using blocked_stays [OF len] by blast
  have c4: "\<forall>rest. ev_threads e ! t = Blocked WaitTimed
              \<and> Resume t \<notin> set rest \<and> TimeOut t \<notin> set rest \<longrightarrow>
            ev_set (ev_step CallSet e)
          \<and> ev_threads (ev_run (CallSet # rest @ [Resume t]) e) ! t = Returned WaitTimed True"
  proof (intro allI impI)
    fix rest
    assume h: "ev_threads e ! t = Blocked WaitTimed
        \<and> Resume t \<notin> set rest \<and> TimeOut t \<notin> set rest"
    then have b: "ev_threads e ! t = Blocked WaitTimed" and r: "Resume t \<notin> set rest"
      and o: "TimeOut t \<notin> set rest \<or> WaitTimed \<noteq> WaitTimed \<or> no_timeout = timeout"
      by simp_all
    have ns: "\<not> ev_set e" using blocked_not_set [OF inv len b] .
    define e1 where "e1 = ev_step CallSet e"
    have s1: "ev_set e1"
      using ns by (simp add: e1_def Event_set_def)
    have len1: "t < length (ev_threads e1)"
      using len by (simp only: e1_def length_ev_step)
    have w: "ev_threads e1 ! t = Woken WaitTimed no_timeout"
      using ns b len by (simp add: e1_def Event_set_def notify_all_def)
    have "ev_threads (ev_run (rest @ [Resume t]) e1) ! t = Returned WaitTimed True"
      using woken_resume_run [OF len1 w r o] by simp
    then have "ev_threads (ev_run (CallSet # rest @ [Resume t]) e) ! t = Returned WaitTimed True"
      by (simp only: e1_def ev_run_Cons)
    with s1 show "ev_set (ev_step CallSet e)
          \<and> ev_threads (ev_run (CallSet # rest @ [Resume t]) e) ! t = Returned WaitTimed True"
      by (simp only: e1_def)
  qed
  have c5: "\<forall>rest. ev_threads e ! t = Blocked WaitTimed
              \<and> Resume t \<notin> set rest \<and> TimeOut t \<in> set rest \<longrightarrow>
            ev_threads (ev_run (rest @ [Resume t]) e) ! t = Returned WaitTimed False"
  proof (intro allI impI)
    fix rest
    assume h: "ev_threads e ! t = Blocked WaitTimed
        \<and> Resume t \<notin> set rest \<and> TimeOut t \<in> set rest"
    then have i: "in_wait_for (ev_threads e ! t)" and r: "Resume t \<notin> set rest"
      and m: "TimeOut t \<in> set rest"
      by simp_all
    define e1 where "e1 = ev_run rest e"
    have len1: "t < length (ev_threads e1)"
      using len by (simp only: e1_def length_ev_run)
    have w: "ev_threads e1 ! t = Woken WaitTimed timeout"
      unfolding e1_def using len i r m by (rule timed_out_run)
    have "ev_threads (ev_step (Resume t) e1) ! t = Returned WaitTimed False"
      using resume_woken [OF len1 w] by simp
    then show "ev_threads (ev_run (rest @ [Resume t]) e) ! t = Returned WaitTimed False"
      by (simp only: e1_def ev_run_append ev_run_Cons ev_run_Nil)
  qed
  have c6: "\<forall>rest. ev_threads e ! t = Blocked WaitTimed
              \<and> Resume t \<notin> set rest \<and> TimeOut t \<notin> set rest \<longrightarrow>
            ev_threads (ev_run (rest @ [Resume t]) e) ! t = Blocked WaitTimed
          \<or> ev_threads (ev_run (rest @ [Resume t]) e) ! t = Returned WaitTimed True"
  proof (intro allI impI)
    fix rest
    assume h: "ev_threads e ! t = Blocked WaitTimed
        \<and> Resume t \<notin> set rest \<and> TimeOut t \<notin> set rest"
    then have b: "ev_threads e ! t = Blocked WaitTimed
          \<or> ev_threads e ! t = Woken WaitTimed no_timeout"
      and r: "Resume t \<notin> set rest" and o: "TimeOut t \<notin> set rest"
      by simp_all
    define e1 where "e1 = ev_run rest e"
    have len1: "t < length (ev_threads e1)"
      using len by (simp only: e1_def length_ev_run)
    have w: "ev_threads e1 ! t = Blocked WaitTimed
          \<or> ev_threads e1 ! t = Woken WaitTimed no_timeout"
      unfolding e1_def using len b r o by (rule in_time_run)
    have "ev_threads (ev_step (Resume t) e1) ! t = Blocked WaitTimed
          \<or> ev_threads (ev_step (Resume t) e1) ! t = Returned WaitTimed True"
      using w len1 by (auto simp: at_thread_def)
    then show "ev_threads (ev_run (rest @ [Resume t]) e) ! t = Blocked WaitTimed
          \<or> ev_threads (ev_run (rest @ [Resume t]) e) ! t = Returned WaitTimed True"
      by (simp only: e1_def ev_run_append ev_run_Cons ev_run_Nil)
  qed
  from c1 c2 c3 c4 c5 c6 show ?thesis by blast
qed

theorem Event_wait_timeout_witness:
  "(0::nat) < 2
   \<and> ev_set (ev_run [CallSet] (Event_init 2))
   \<and> ev_step (Call 0 WaitTimed) (ev_run [CallSet] (Event_init 2))
       = at_thread 0 (Returned WaitTimed True) (ev_run [CallSet] (Event_init 2))
   \<and> \<not> ev_set (ev_run [] (Event_init 2))
   \<and> ev_threads (ev_step (Call 0 WaitTimed) (ev_run [] (Event_init 2))) ! 0 = Blocked WaitTimed
   \<and> ev_threads (ev_run [Call 0 WaitTimed, Call 1 Wait] (Event_init 2)) ! 0 = Blocked WaitTimed
   \<and> ev_threads (ev_step CallReset (ev_run [Call 0 WaitTimed, Call 1 Wait] (Event_init 2))) ! 0
       = Blocked WaitTimed
   \<and> Resume 0 \<notin> set [CallReset, Resume 1, TimeOut 1]
   \<and> TimeOut 0 \<notin> set [CallReset, Resume 1, TimeOut 1]
   \<and> ev_set (ev_step CallSet (ev_run [Call 0 WaitTimed, Call 1 Wait] (Event_init 2)))
   \<and> ev_threads (ev_run (CallSet # [CallReset, Resume 1, TimeOut 1] @ [Resume 0])
        (ev_run [Call 0 WaitTimed, Call 1 Wait] (Event_init 2))) ! 0 = Returned WaitTimed True
   \<and> Resume 0 \<notin> set [CallSet, TimeOut 0, CallReset]
   \<and> TimeOut 0 \<in> set [CallSet, TimeOut 0, CallReset]
   \<and> ev_threads (ev_run ([CallSet, TimeOut 0, CallReset] @ [Resume 0])
        (ev_run [Call 0 WaitTimed, Call 1 Wait] (Event_init 2))) ! 0 = Returned WaitTimed False
   \<and> Resume 0 \<notin> set [TimeOut 0, CallSet]
   \<and> TimeOut 0 \<in> set [TimeOut 0, CallSet]
   \<and> ev_threads (ev_run ([TimeOut 0, CallSet] @ [Resume 0])
        (ev_run [Call 0 WaitTimed, Call 1 Wait] (Event_init 2))) ! 0 = Returned WaitTimed False
   \<and> Resume 0 \<notin> set [Call 1 Wait, CallReset]
   \<and> TimeOut 0 \<notin> set [Call 1 Wait, CallReset]
   \<and> ev_threads (ev_run ([Call 1 Wait, CallReset] @ [Resume 0])
        (ev_run [Call 0 WaitTimed] (Event_init 2))) ! 0 \<noteq> Returned WaitTimed False
   \<and> ev_threads (ev_run ([Call 1 Wait, CallReset] @ [Resume 0])
        (ev_run [Call 0 WaitTimed] (Event_init 2))) ! 0 = Blocked WaitTimed"
proof -
  have z: "(0::nat) < 2" by simp
  have s1: "callable (ev_threads (ev_run [CallSet] (Event_init 2)) ! 0)
      \<and> ev_set (ev_run [CallSet] (Event_init 2))"
    by (simp add: ev_eval numeral_2_eq_2)
  have s2: "callable (ev_threads (ev_run [] (Event_init 2)) ! 0)
      \<and> \<not> ev_set (ev_run [] (Event_init 2))"
    by (simp add: ev_eval numeral_2_eq_2)
  have b: "ev_threads (ev_run [Call 0 WaitTimed, Call 1 Wait] (Event_init 2)) ! 0 = Blocked WaitTimed"
    by (simp add: ev_eval numeral_2_eq_2)
  have b1: "ev_threads (ev_run [Call 0 WaitTimed] (Event_init 2)) ! 0 = Blocked WaitTimed"
    by (simp add: ev_eval numeral_2_eq_2)
  have a: "CallReset \<noteq> CallSet \<and> CallReset \<noteq> Spurious 0 \<and> CallReset \<noteq> TimeOut 0"
    by simp
  have n1: "Resume 0 \<notin> set [CallReset, Resume 1, TimeOut 1]
      \<and> TimeOut 0 \<notin> set [CallReset, Resume 1, TimeOut 1]" by simp
  have n2: "Resume 0 \<notin> set [CallSet, TimeOut 0, CallReset]
      \<and> TimeOut 0 \<in> set [CallSet, TimeOut 0, CallReset]" by simp
  have n3: "Resume 0 \<notin> set [TimeOut 0, CallSet]
      \<and> TimeOut 0 \<in> set [TimeOut 0, CallSet]" by simp
  have n4: "Resume 0 \<notin> set [Call 1 Wait, CallReset]
      \<and> TimeOut 0 \<notin> set [Call 1 Wait, CallReset]" by simp
  have c1: "ev_step (Call 0 WaitTimed) (ev_run [CallSet] (Event_init 2))
       = at_thread 0 (Returned WaitTimed True) (ev_run [CallSet] (Event_init 2))"
    using Event_wait_timeout [where sched = "[CallSet]" and n = 2 and t = 0, OF refl z] s1
    by blast
  have c2: "ev_threads (ev_step (Call 0 WaitTimed) (ev_run [] (Event_init 2))) ! 0
       = Blocked WaitTimed"
    using Event_wait_timeout [where sched = "[]" and n = 2 and t = 0, OF refl z] s2
    by blast
  have c3: "ev_threads (ev_step CallReset (ev_run [Call 0 WaitTimed, Call 1 Wait] (Event_init 2))) ! 0
       = Blocked WaitTimed"
    using Event_wait_timeout [where sched = "[Call 0 WaitTimed, Call 1 Wait]" and n = 2 and t = 0,
      OF refl z] b a
    by blast
  have c4: "ev_set (ev_step CallSet (ev_run [Call 0 WaitTimed, Call 1 Wait] (Event_init 2)))
      \<and> ev_threads (ev_run (CallSet # [CallReset, Resume 1, TimeOut 1] @ [Resume 0])
        (ev_run [Call 0 WaitTimed, Call 1 Wait] (Event_init 2))) ! 0 = Returned WaitTimed True"
    using Event_wait_timeout [where sched = "[Call 0 WaitTimed, Call 1 Wait]" and n = 2 and t = 0,
      OF refl z] b n1
    by blast
  have c5: "ev_threads (ev_run ([CallSet, TimeOut 0, CallReset] @ [Resume 0])
        (ev_run [Call 0 WaitTimed, Call 1 Wait] (Event_init 2))) ! 0 = Returned WaitTimed False"
    using Event_wait_timeout [where sched = "[Call 0 WaitTimed, Call 1 Wait]" and n = 2 and t = 0,
      OF refl z] b n2
    by blast
  have c6: "ev_threads (ev_run ([TimeOut 0, CallSet] @ [Resume 0])
        (ev_run [Call 0 WaitTimed, Call 1 Wait] (Event_init 2))) ! 0 = Returned WaitTimed False"
    using Event_wait_timeout [where sched = "[Call 0 WaitTimed, Call 1 Wait]" and n = 2 and t = 0,
      OF refl z] b n3
    by blast
  have c7: "ev_threads (ev_run ([Call 1 Wait, CallReset] @ [Resume 0])
        (ev_run [Call 0 WaitTimed] (Event_init 2))) ! 0 = Blocked WaitTimed
      \<or> ev_threads (ev_run ([Call 1 Wait, CallReset] @ [Resume 0])
        (ev_run [Call 0 WaitTimed] (Event_init 2))) ! 0 = Returned WaitTimed True"
    using Event_wait_timeout [where sched = "[Call 0 WaitTimed]" and n = 2 and t = 0,
      OF refl z] b1 n4
    by blast
  have d: "Blocked WaitTimed \<noteq> Returned WaitTimed False
      \<and> Returned WaitTimed True \<noteq> Returned WaitTimed False"
    by simp
  have c8: "ev_threads (ev_run ([Call 1 Wait, CallReset] @ [Resume 0])
        (ev_run [Call 0 WaitTimed] (Event_init 2))) ! 0 \<noteq> Returned WaitTimed False"
    using c7 d by metis
  have c9: "ev_threads (ev_run ([Call 1 Wait, CallReset] @ [Resume 0])
        (ev_run [Call 0 WaitTimed] (Event_init 2))) ! 0 = Blocked WaitTimed"
    by (simp add: ev_eval numeral_2_eq_2)
  from z s1 s2 b n1 n2 n3 n4 c1 c2 c3 c4 c5 c6 c8 c9 show ?thesis by blast
qed

section \<open>Future and Promise\<close>

text \<open>
  \<^verbatim>\<open>
  Future() { _ev = new RefEvent(); _objRef = new RefPtrRef(); }
  Future(const Future& rhs) : _ev(rhs._ev), _objRef(rhs._objRef.get()) { }
  bool isAvailable() const { return _ev->isSet(); }
  bool isAbandoned() const { return _objRef->referenceCount() == 1; }
  T* get() {
      while(!_ev->wait(1000u))
          if (isAbandoned()) return 0L;
      return _objRef->_obj.get();
  }
  T* release() {
      while(!_ev->wait(1000u))
          if (isAbandoned()) return 0L;
      T* out = _objRef->_obj.release();
      _ev->reset();
      return out;
  }

  Promise() { }                                    // holds one Future: _future
  const Future<T> getFuture() const { return _future; }
  void resolve(T* value) { _future._objRef->_obj = value; _future._ev->set(); }
  bool isResolved() const { return _future._ev->isSet(); }
  bool isAbandoned() const { return _future._objRef->referenceCount() == 1; }
  \<close>
  A Promise and the Futures copied from its \<^verbatim>\<open>_future\<close> share one \<^verbatim>\<open>RefEvent\<close> and one
  \<^verbatim>\<open>RefPtrRef\<close>. The record below is that shared state: the event, the pointer
  \<^verbatim>\<open>_objRef->_obj\<close> (\<open>None\<close> is the null pointer), the reference count of
  \<^verbatim>\<open>_objRef\<close>, which is the number of Future objects that point to it (the one inside
  the Promise included), whether the Promise still exists (no method reads it: it says
  which calls are possible, the methods of a Promise being callable while it exists, and
  it serves to state the claims), and where each consumer thread is inside \<^verbatim>\<open>get()\<close>
  or \<^verbatim>\<open>release()\<close>. The overloads of \<^verbatim>\<open>get\<close> and \<^verbatim>\<open>release\<close> that take a
  \<^verbatim>\<open>Cancelable\<close> are not modelled.
\<close>

datatype 'a fu_thread = Out | InGet | InRelease | Got "'a option" | Released "'a option"

record 'a Future =
  ev :: Event
  obj :: "'a option"
  referenceCount :: nat
  promise :: bool
  pcs :: "'a fu_thread list"

text \<open>The state after \<^verbatim>\<open>Promise<T> p;\<close> with \<open>n\<close> threads that may consume the result.\<close>

definition Promise_init :: "nat \<Rightarrow> 'a Future" where
  "Promise_init n = \<lparr>ev = Event_init n, obj = None, referenceCount = 1, promise = True,
     pcs = replicate n Out\<rparr>"

definition isAvailable :: "'a Future \<Rightarrow> bool" where
  "isAvailable c = ev_set (ev c)"

definition isAbandoned :: "'a Future \<Rightarrow> bool" where
  "isAbandoned c = (referenceCount c = 1)"

definition isResolved :: "'a Future \<Rightarrow> bool" where
  "isResolved c = ev_set (ev c)"

definition Promise_isAbandoned :: "'a Future \<Rightarrow> bool" where
  "Promise_isAbandoned c = (referenceCount c = 1)"

definition resolve :: "'a option \<Rightarrow> 'a Future \<Rightarrow> 'a Future" where
  "resolve v c = c\<lparr>obj := v, ev := Event_set (ev c)\<rparr>"

fun outside :: "'a fu_thread \<Rightarrow> bool" where
  "outside InGet = False"
| "outside InRelease = False"
| "outside p = True"

text \<open>The number of Future objects outside the Promise.\<close>

definition futures :: "'a Future \<Rightarrow> nat" where
  "futures c = referenceCount c - (if promise c then 1 else 0)"

text \<open>
  Entering \<^verbatim>\<open>get()\<close> or \<^verbatim>\<open>release()\<close>: the first \<^verbatim>\<open>_ev->wait(1000u)\<close>.
\<close>

definition enter :: "nat \<Rightarrow> 'a fu_thread \<Rightarrow> 'a Future \<Rightarrow> 'a Future" where
  "enter t p c = c\<lparr>pcs := (pcs c)[t := p], ev := Event_wait_timed t (ev c)\<rparr>"

text \<open>
  What \<^verbatim>\<open>get()\<close> and \<^verbatim>\<open>release()\<close> do when \<^verbatim>\<open>_ev->wait(1000u)\<close> has returned: on true,
  read (or take) the pointer and return; on false, return null if abandoned and call
  \<^verbatim>\<open>_ev->wait(1000u)\<close> again otherwise.
\<close>

definition get_next :: "nat \<Rightarrow> 'a Future \<Rightarrow> 'a Future" where
  "get_next t c =
     (case ev_threads (ev c) ! t of
        Returned WaitTimed r \<Rightarrow>
          (if r then c\<lparr>pcs := (pcs c)[t := Got (obj c)]\<rparr>
           else if isAbandoned c then c\<lparr>pcs := (pcs c)[t := Got None]\<rparr>
           else c\<lparr>ev := Event_wait_timed t (ev c)\<rparr>)
      | _ \<Rightarrow> c)"

definition release_next :: "nat \<Rightarrow> 'a Future \<Rightarrow> 'a Future" where
  "release_next t c =
     (case ev_threads (ev c) ! t of
        Returned WaitTimed r \<Rightarrow>
          (if r then c\<lparr>pcs := (pcs c)[t := Released (obj c)], obj := None,
                        ev := Event_reset (ev c)\<rparr>
           else if isAbandoned c then c\<lparr>pcs := (pcs c)[t := Released None]\<rparr>
           else c\<lparr>ev := Event_wait_timed t (ev c)\<rparr>)
      | _ \<Rightarrow> c)"

text \<open>
  The steps on the private event that are not calls of the Future's own methods: a
  blocked \<^verbatim>\<open>wait(1000u)\<close> times out, wakes spuriously, or runs again after it was
  unblocked.
\<close>

fun wait_step :: "ev_action \<Rightarrow> bool" where
  "wait_step (Resume t) = True"
| "wait_step (TimeOut t) = True"
| "wait_step (Spurious t) = True"
| "wait_step a = False"

datatype 'a fu_action =
    Resolve "'a option"
  | GetFuture
  | CopyFuture
  | DestroyFuture
  | DestroyPromise
  | CallGet nat
  | CallRelease nat
  | Next nat
  | OnEvent ev_action

fun fu_step :: "'a fu_action \<Rightarrow> 'a Future \<Rightarrow> 'a Future" where
  "fu_step (Resolve v) c = (if promise c then resolve v c else c)"
| "fu_step GetFuture c =
     (if promise c then c\<lparr>referenceCount := referenceCount c + 1\<rparr> else c)"
| "fu_step CopyFuture c =
     (if 0 < futures c then c\<lparr>referenceCount := referenceCount c + 1\<rparr> else c)"
| "fu_step DestroyFuture c =
     (if 0 < futures c then c\<lparr>referenceCount := referenceCount c - 1\<rparr> else c)"
| "fu_step DestroyPromise c =
     (if promise c then c\<lparr>referenceCount := referenceCount c - 1, promise := False\<rparr> else c)"
| "fu_step (CallGet t) c =
     (if t < length (pcs c) \<and> outside (pcs c ! t) then enter t InGet c else c)"
| "fu_step (CallRelease t) c =
     (if t < length (pcs c) \<and> outside (pcs c ! t) then enter t InRelease c else c)"
| "fu_step (Next t) c =
     (if t < length (pcs c)
      then (case pcs c ! t of InGet \<Rightarrow> get_next t c | InRelease \<Rightarrow> release_next t c | _ \<Rightarrow> c)
      else c)"
| "fu_step (OnEvent a) c = (if wait_step a then c\<lparr>ev := ev_step a (ev c)\<rparr> else c)"

definition fu_run :: "'a fu_action list \<Rightarrow> 'a Future \<Rightarrow> 'a Future" where
  "fu_run sched c = fold fu_step sched c"

text \<open>The steps that are neither a \<^verbatim>\<open>resolve\<close> nor the start of a \<^verbatim>\<open>release()\<close>.\<close>

fun quiet :: "'a fu_action \<Rightarrow> bool" where
  "quiet (Resolve v) = False"
| "quiet (CallRelease t) = False"
| "quiet a = True"

subsection \<open>Reachable states of a Future\<close>

fun timed_only :: "ev_thread \<Rightarrow> bool" where
  "timed_only (Blocked c) = (c = WaitTimed)"
| "timed_only (Woken c st) = (c = WaitTimed)"
| "timed_only th = True"

text \<open>Every thread has a position in the event as well, and the only method of the
  event in which a thread blocks is \<^verbatim>\<open>wait(1000u)\<close>.\<close>

definition all_timed :: "Event \<Rightarrow> bool" where
  "all_timed e = (\<forall>th \<in> set (ev_threads e). timed_only th)"

definition fu_wf :: "'a Future \<Rightarrow> bool" where
  "fu_wf c = (length (ev_threads (ev c)) = length (pcs c) \<and> all_timed (ev c))"

text \<open>The result \<open>v\<close> is in place: the event is set, the pointer is \<open>v\<close>, and no thread
  is inside \<^verbatim>\<open>release()\<close>.\<close>

definition settled :: "'a option \<Rightarrow> 'a Future \<Rightarrow> bool" where
  "settled v c = (fu_wf c \<and> ev_set (ev c) \<and> obj c = v \<and> InRelease \<notin> set (pcs c))"

text \<open>Thread \<open>t\<close> is inside a \<^verbatim>\<open>get()\<close> whose \<^verbatim>\<open>wait(1000u)\<close> has returned true, or
  its \<^verbatim>\<open>get()\<close> has returned \<open>v\<close>.\<close>

definition getting :: "nat \<Rightarrow> 'a option \<Rightarrow> 'a Future \<Rightarrow> bool" where
  "getting t v c = (t < length (pcs c)
     \<and> ((pcs c ! t = InGet \<and> ev_threads (ev c) ! t = Returned WaitTimed True)
        \<or> pcs c ! t = Got v))"

lemma fu_run_Nil [simp]: "fu_run [] c = c"
  by (simp add: fu_run_def)

lemma fu_run_Cons [simp]: "fu_run (a # sched) c = fu_run sched (fu_step a c)"
  by (simp add: fu_run_def)

lemma fu_run_append [simp]: "fu_run (xs @ ys) c = fu_run ys (fu_run xs c)"
  by (simp add: fu_run_def)

lemma all_timed_at_thread: "all_timed e \<Longrightarrow> timed_only th \<Longrightarrow> all_timed (at_thread t th e)"
  by (auto simp: all_timed_def at_thread_def dest: set_update_subset_insert [THEN subsetD])

lemma timed_only_notify: "timed_only th \<Longrightarrow> timed_only (notify th)"
  by (cases th) simp_all

lemma all_timed_Event_set: "all_timed e \<Longrightarrow> all_timed (Event_set e)"
  by (auto simp: all_timed_def Event_set_def notify_all_def timed_only_notify)

lemma all_timed_Event_reset: "all_timed e \<Longrightarrow> all_timed (Event_reset e)"
  by (simp add: all_timed_def Event_reset_def)

lemma all_timed_Event_wait_timed: "all_timed e \<Longrightarrow> all_timed (Event_wait_timed t e)"
  by (simp add: Event_wait_timed_def all_timed_at_thread)

lemma length_Event_wait_timed [simp]:
  "length (ev_threads (Event_wait_timed t e)) = length (ev_threads e)"
  by (simp add: Event_wait_timed_def)

lemma ev_set_Event_wait_timed [simp]: "ev_set (Event_wait_timed t e) = ev_set e"
  by (simp add: Event_wait_timed_def)

lemma length_Event_reset [simp]: "length (ev_threads (Event_reset e)) = length (ev_threads e)"
  by (simp add: Event_reset_def)

lemma all_timed_wait_step:
  assumes "all_timed e" and "wait_step a"
  shows "all_timed (ev_step a e)"
proof (cases a)
  case (Resume t)
  show ?thesis
  proof (cases "t < length (ev_threads e)")
    case True
    have "all_timed (Event_resume t e)"
    proof (cases "ev_threads e ! t")
      case (Woken c st)
      moreover have "timed_only (ev_threads e ! t)"
        using assms(1) True by (simp add: all_timed_def)
      ultimately have "c = WaitTimed" by simp
      then show ?thesis using Woken assms(1) by (simp add: all_timed_at_thread)
    qed (use assms(1) in simp_all)
    then show ?thesis using Resume True by simp
  next
    case False
    then show ?thesis using Resume assms(1) by simp
  qed
next
  case (TimeOut t)
  show ?thesis
  proof (cases "t < length (ev_threads e)")
    case True
    have "all_timed (Event_timeout t e)"
    proof (cases "ev_threads e ! t")
      case (Blocked c)
      then show ?thesis using assms(1) by (cases c) (simp_all add: all_timed_at_thread)
    next
      case (Woken c st)
      then show ?thesis using assms(1) by (cases c) (simp_all add: all_timed_at_thread)
    qed (use assms(1) in simp_all)
    then show ?thesis using TimeOut True by simp
  next
    case False
    then show ?thesis using TimeOut assms(1) by simp
  qed
next
  case (Spurious t)
  show ?thesis
  proof (cases "t < length (ev_threads e)")
    case True
    have "all_timed (Event_spurious t e)"
    proof (cases "ev_threads e ! t")
      case (Blocked c)
      moreover have "timed_only (ev_threads e ! t)"
        using assms(1) True by (simp add: all_timed_def)
      ultimately have "c = WaitTimed" by simp
      then show ?thesis using Blocked assms(1) by (simp add: all_timed_at_thread)
    qed (use assms(1) in simp_all)
    then show ?thesis using Spurious True by simp
  next
    case False
    then show ?thesis using Spurious assms(1) by simp
  qed
qed (use assms in simp_all)

lemma fu_wf_get_next: "fu_wf c \<Longrightarrow> fu_wf (get_next t c)"
  by (auto simp: fu_wf_def get_next_def all_timed_Event_wait_timed
      split: ev_thread.splits ev_call.splits)

lemma fu_wf_release_next: "fu_wf c \<Longrightarrow> fu_wf (release_next t c)"
  by (auto simp: fu_wf_def release_next_def all_timed_Event_wait_timed all_timed_Event_reset
      split: ev_thread.splits ev_call.splits)

lemma fu_wf_step: "fu_wf c \<Longrightarrow> fu_wf (fu_step a c)"
proof (cases a)
  case (Resolve v)
  assume "fu_wf c"
  then show ?thesis using Resolve by (simp add: fu_wf_def resolve_def all_timed_Event_set)
next
  case (CallGet t)
  assume "fu_wf c"
  then show ?thesis using CallGet by (simp add: fu_wf_def enter_def all_timed_Event_wait_timed)
next
  case (CallRelease t)
  assume "fu_wf c"
  then show ?thesis using CallRelease by (simp add: fu_wf_def enter_def all_timed_Event_wait_timed)
next
  case (Next t)
  assume "fu_wf c"
  then show ?thesis using Next
    by (simp add: fu_wf_get_next fu_wf_release_next split: fu_thread.splits)
next
  case (OnEvent b)
  assume "fu_wf c"
  then show ?thesis using OnEvent by (simp add: fu_wf_def all_timed_wait_step)
qed (simp_all add: fu_wf_def)

lemma fu_wf_run: "fu_wf c \<Longrightarrow> fu_wf (fu_run sched c)"
  by (induction sched arbitrary: c) (simp_all add: fu_wf_step)

lemma fu_wf_init: "fu_wf (Promise_init n)"
  by (simp add: fu_wf_def all_timed_def Promise_init_def Event_init_def)

lemma length_pcs_step [simp]: "length (pcs (fu_step a c)) = length (pcs c)"
  by (cases a)
     (auto simp: resolve_def enter_def get_next_def release_next_def
        split: fu_thread.splits ev_thread.splits ev_call.splits)

lemma length_pcs_run [simp]: "length (pcs (fu_run sched c)) = length (pcs c)"
  by (induction sched arbitrary: c) simp_all

lemma ev_set_wait_step:
  assumes "all_timed e" and "wait_step a"
  shows "ev_set (ev_step a e) = ev_set e"
proof (cases a)
  case (Resume t)
  show ?thesis
  proof (cases "t < length (ev_threads e)")
    case True
    then have "timed_only (ev_threads e ! t)"
      using assms(1) by (simp add: all_timed_def)
    then show ?thesis using Resume True
      by (auto split: ev_thread.splits ev_call.splits)
  next
    case False
    then show ?thesis using Resume by simp
  qed
next
  case (TimeOut t)
  then show ?thesis by (auto split: ev_thread.splits ev_call.splits)
next
  case (Spurious t)
  then show ?thesis by (auto split: ev_thread.splits ev_call.splits)
qed (use assms in simp_all)

lemma returned_wait_step:
  assumes "t < length (ev_threads e)" and "ev_threads e ! t = Returned c r" and "wait_step a"
  shows "ev_threads (ev_step a e) ! t = Returned c r"
  using assms
  by (cases a) (auto simp: at_thread_def nth_list_update split: ev_thread.splits ev_call.splits)

lemma not_in_set_update:
  "x \<notin> set xs \<Longrightarrow> y \<noteq> x \<Longrightarrow> x \<notin> set (xs[i := y])"
  by (auto dest: set_update_subset_insert [THEN subsetD])

lemma settled_step:
  assumes "settled v c" and "quiet a"
  shows "settled v (fu_step a c)"
proof (cases a)
  case (CallGet t)
  then show ?thesis using assms(1)
    by (auto simp: settled_def fu_wf_def enter_def all_timed_Event_wait_timed
        dest: set_update_subset_insert [THEN subsetD])
next
  case (Next t)
  show ?thesis
  proof (cases "t < length (pcs c)")
    case True
    have "InRelease \<notin> set (pcs c)"
      using assms(1) by (simp add: settled_def)
    then have nr: "pcs c ! t \<noteq> InRelease"
      using True by (metis nth_mem)
    show ?thesis
    proof (cases "pcs c ! t = InGet")
      case ig: True
      have "settled v (get_next t c)"
        using assms(1)
        by (auto simp: settled_def fu_wf_def get_next_def all_timed_Event_wait_timed
            split: ev_thread.splits ev_call.splits
            dest: set_update_subset_insert [THEN subsetD])
      then show ?thesis using Next True ig by simp
    next
      case False
      then show ?thesis using Next True nr assms(1) by (simp split: fu_thread.splits)
    qed
  next
    case False
    then show ?thesis using Next assms(1) by simp
  qed
next
  case (OnEvent b)
  then show ?thesis using assms(1)
    by (auto simp: settled_def fu_wf_def all_timed_wait_step ev_set_wait_step)
qed (use assms in \<open>auto simp: settled_def fu_wf_def\<close>)

lemma settled_run:
  "settled v c \<Longrightarrow> \<forall>a \<in> set sched. quiet a \<Longrightarrow> settled v (fu_run sched c)"
  by (induction sched arbitrary: c) (simp_all add: settled_step)

lemma getting_step:
  assumes "settled v c" and "getting t v c" and "quiet a"
  shows "getting t v (fu_step a c)"
proof -
  have len: "length (ev_threads (ev c)) = length (pcs c)" and s: "ev_set (ev c)"
    and o: "obj c = v" and t: "t < length (pcs c)"
    using assms(1,2) by (simp_all add: settled_def fu_wf_def getting_def)
  show ?thesis
  proof (cases a)
    case (CallGet u)
    then show ?thesis using assms(2) len s t
      by (auto simp: getting_def enter_def Event_wait_timed_def at_thread_def nth_list_update)
  next
    case (Next u)
    show ?thesis
    proof (cases "u < length (pcs c)")
      case True
      have "InRelease \<notin> set (pcs c)"
        using assms(1) by (simp add: settled_def)
      then have nr: "pcs c ! u \<noteq> InRelease"
        using True by (metis nth_mem)
      show ?thesis
      proof (cases "pcs c ! u = InGet")
        case ig: True
        have "getting t v (get_next u c)"
          using assms(2) len s o t True ig
          by (auto simp: getting_def get_next_def Event_wait_timed_def at_thread_def
              nth_list_update split: ev_thread.splits ev_call.splits)
        then show ?thesis using Next True ig by simp
      next
        case False
        then show ?thesis using Next True nr assms(2) by (simp split: fu_thread.splits)
      qed
    next
      case False
      then show ?thesis using Next assms(2) by simp
    qed
  next
    case (OnEvent b)
    then show ?thesis using assms(2) len t
      by (auto simp: getting_def returned_wait_step)
  qed (use assms in \<open>auto simp: getting_def\<close>)
qed

lemma getting_run:
  "settled v c \<Longrightarrow> getting t v c \<Longrightarrow> \<forall>a \<in> set sched. quiet a
   \<Longrightarrow> getting t v (fu_run sched c)"
proof (induction sched arbitrary: c)
  case Nil
  then show ?case by simp
next
  case (Cons a sched)
  then show ?case by (simp add: settled_step getting_step)
qed

lemma getting_call:
  assumes "settled v c" and "t < length (pcs c)" and "outside (pcs c ! t)"
  shows "getting t v (fu_step (CallGet t) c)"
  using assms
  by (simp add: settled_def fu_wf_def getting_def enter_def Event_wait_timed_def at_thread_def)

lemma getting_next:
  assumes "settled v c" and "getting t v c"
  shows "pcs (fu_step (Next t) c) ! t = Got v"
  using assms
  by (auto simp: settled_def fu_wf_def getting_def get_next_def)

lemma ev_set_Event_set [simp]: "ev_set (Event_set e)"
  by (simp add: Event_set_def)

lemma settled_resolve:
  assumes "fu_wf c" and "promise c" and "InRelease \<notin> set (pcs c)"
  shows "settled v (fu_step (Resolve v) c)"
  using assms
  by (simp add: settled_def fu_wf_def resolve_def all_timed_Event_set)

lemma get_after_settled:
  assumes "settled v c" and "t < length (pcs c)" and "outside (pcs c ! t)"
    and "\<forall>a \<in> set rest. quiet a"
  shows "pcs (fu_run (CallGet t # rest @ [Next t]) c) ! t = Got v"
proof -
  define c1 where "c1 = fu_step (CallGet t) c"
  have s1: "settled v c1"
    unfolding c1_def using assms(1) by (rule settled_step) simp
  have g1: "getting t v c1"
    unfolding c1_def using assms(1-3) by (rule getting_call)
  define c2 where "c2 = fu_run rest c1"
  have s2: "settled v c2"
    unfolding c2_def using s1 assms(4) by (rule settled_run)
  have g2: "getting t v c2"
    unfolding c2_def using s1 g1 assms(4) by (rule getting_run)
  have "pcs (fu_step (Next t) c2) ! t = Got v"
    using s2 g2 by (rule getting_next)
  then show ?thesis
    by (simp only: c1_def c2_def fu_run_Cons fu_run_append fu_run_Nil)
qed

lemmas fu_eval = Promise_init_def Event_init_def resolve_def enter_def get_next_def
  release_next_def Event_set_def Event_reset_def Event_wait_timed_def notify_all_def
  at_thread_def futures_def isAbandoned_def isAvailable_def isResolved_def

text \<open>
  C1, as stated: once \<^verbatim>\<open>resolve(v)\<close> has executed, every later \<^verbatim>\<open>get()\<close> returns \<open>v\<close> and
  \<^verbatim>\<open>isAvailable()\<close> is true. After \<^verbatim>\<open>resolve(1)\<close> a second \<^verbatim>\<open>resolve(2)\<close> overwrites the
  pointer, and the next \<^verbatim>\<open>get()\<close> returns 2. After \<^verbatim>\<open>resolve(1)\<close> a \<^verbatim>\<open>release()\<close> by thread 0
  takes the pointer and resets the event; the \<^verbatim>\<open>get()\<close> that thread 1 then calls blocks in
  \<^verbatim>\<open>wait(1000u)\<close>, and \<^verbatim>\<open>isAvailable()\<close> is false.
\<close>

theorem get_after_resolve_counterexample:
  "pcs (fu_run [GetFuture, Resolve (Some 1), Resolve (Some 2), CallGet 0, Next 0]
         (Promise_init 1 :: nat Future)) ! 0 = Got (Some 2)
   \<and> pcs (fu_run [GetFuture, Resolve (Some 1), CallRelease 0, Next 0, CallGet 1, Next 1]
         (Promise_init 2 :: nat Future)) = [Released (Some 1), InGet]
   \<and> ev (fu_run [GetFuture, Resolve (Some 1), CallRelease 0, Next 0, CallGet 1, Next 1]
         (Promise_init 2 :: nat Future))
       = \<lparr>ev_set = False, ev_threads = [Returned WaitTimed True, Blocked WaitTimed]\<rparr>
   \<and> \<not> isAvailable (fu_run [GetFuture, Resolve (Some 1), CallRelease 0, Next 0, CallGet 1, Next 1]
         (Promise_init 2 :: nat Future))"
  by (simp add: fu_eval numeral_2_eq_2)

text \<open>
  C1, amended. Let \<open>c0\<close> be a reachable state in which the Promise exists and no thread
  is inside \<^verbatim>\<open>release()\<close>, and let \<^verbatim>\<open>resolve(v)\<close> execute there. After every schedule
  that holds no further \<^verbatim>\<open>resolve\<close> and no \<^verbatim>\<open>release()\<close> (handles may be copied and
  destroyed, the Promise may be destroyed, other threads may call \<^verbatim>\<open>get()\<close>),
  \<^verbatim>\<open>isAvailable()\<close> is true, the stored pointer is \<open>v\<close>, and a \<^verbatim>\<open>get()\<close> that any thread
  \<open>t\<close> then starts returns exactly \<open>v\<close>, whatever such steps the other threads take while
  it runs.
\<close>

theorem get_after_resolve:
  assumes "c0 = fu_run pre (Promise_init n)" and "promise c0" and "InRelease \<notin> set (pcs c0)"
    and "\<forall>a \<in> set sched. quiet a" and "c = fu_run sched (fu_step (Resolve v) c0)"
    and "t < n" and "outside (pcs c ! t)" and "\<forall>a \<in> set rest. quiet a"
  shows "isAvailable c \<and> obj c = v
       \<and> pcs (fu_run (CallGet t # rest @ [Next t]) c) ! t = Got v"
proof -
  have wf0: "fu_wf c0"
    unfolding assms(1) by (rule fu_wf_run) (rule fu_wf_init)
  have "settled v (fu_step (Resolve v) c0)"
    using wf0 assms(2,3) by (rule settled_resolve)
  then have sc: "settled v c"
    unfolding assms(5) using assms(4) by (rule settled_run)
  have "length (pcs c) = n"
    unfolding assms(1,5) by (simp only: length_pcs_run length_pcs_step) (simp add: Promise_init_def)
  then have len: "t < length (pcs c)"
    using assms(6) by simp
  have "pcs (fu_run (CallGet t # rest @ [Next t]) c) ! t = Got v"
    using sc len assms(7,8) by (rule get_after_settled)
  moreover have "isAvailable c" and "obj c = v"
    using sc by (simp_all add: settled_def isAvailable_def)
  ultimately show ?thesis by blast
qed

theorem get_after_resolve_witness:
  "promise (fu_run [GetFuture] (Promise_init 2 :: nat Future))
   \<and> InRelease \<notin> set (pcs (fu_run [GetFuture] (Promise_init 2 :: nat Future)))
   \<and> list_all quiet [CopyFuture, CallGet 0, Next 0, DestroyPromise :: nat fu_action]
   \<and> (1::nat) < 2
   \<and> outside (pcs (fu_run [CopyFuture, CallGet 0, Next 0, DestroyPromise]
        (fu_step (Resolve (Some 7)) (fu_run [GetFuture] (Promise_init 2 :: nat Future)))) ! 1)
   \<and> list_all quiet [DestroyFuture, CallGet 0 :: nat fu_action]
   \<and> pcs (fu_run (CallGet 1 # [DestroyFuture, CallGet 0] @ [Next 1])
        (fu_run [CopyFuture, CallGet 0, Next 0, DestroyPromise]
          (fu_step (Resolve (Some 7)) (fu_run [GetFuture] (Promise_init 2 :: nat Future))))) ! 1
       = Got (Some 7)"
proof -
  have h2: "promise (fu_run [GetFuture] (Promise_init 2 :: nat Future))"
    by (simp add: fu_eval)
  have h3: "InRelease \<notin> set (pcs (fu_run [GetFuture] (Promise_init 2 :: nat Future)))"
    by (simp add: fu_eval numeral_2_eq_2)
  have h4: "\<forall>a \<in> set [CopyFuture, CallGet 0, Next 0, DestroyPromise :: nat fu_action]. quiet a"
    by simp
  have h6: "(1::nat) < 2" by simp
  have h7: "outside (pcs (fu_run [CopyFuture, CallGet 0, Next 0, DestroyPromise]
        (fu_step (Resolve (Some 7)) (fu_run [GetFuture] (Promise_init 2 :: nat Future)))) ! 1)"
    by (simp add: fu_eval numeral_2_eq_2)
  have h8: "\<forall>a \<in> set [DestroyFuture, CallGet 0 :: nat fu_action]. quiet a"
    by simp
  have l4: "list_all quiet [CopyFuture, CallGet 0, Next 0, DestroyPromise :: nat fu_action]"
    by simp
  have l8: "list_all quiet [DestroyFuture, CallGet 0 :: nat fu_action]"
    by simp
  from get_after_resolve [OF refl h2 h3 h4 refl h6 h7 h8] h2 h3 l4 h6 h7 l8
  show ?thesis by blast
qed

text \<open>
  C2. \<^verbatim>\<open>Promise p; Future f1 = p.getFuture(); Future f2(f1);\<close> then \<^verbatim>\<open>p\<close> is destroyed
  unresolved and thread 0 calls \<^verbatim>\<open>f1.get()\<close>. The reference count is 2, so
  \<^verbatim>\<open>isAbandoned()\<close> is false although the Promise no longer exists, and after any number
  \<open>k\<close> of timed-out polls the thread is still inside \<^verbatim>\<open>get()\<close>, blocked in
  \<^verbatim>\<open>wait(1000u)\<close>: the call does not return the null sentinel. With one Future only
  (no copy) the same call returns null after the first timeout.
\<close>

theorem get_polls_forever:
  "fu_run ([GetFuture, CopyFuture, DestroyPromise, CallGet 0]
           @ concat (replicate k [OnEvent (TimeOut 0), OnEvent (Resume 0), Next 0]))
      (Promise_init 1 :: 'a Future)
     = \<lparr>ev = \<lparr>ev_set = False, ev_threads = [Blocked WaitTimed]\<rparr>, obj = None,
         referenceCount = 2, promise = False, pcs = [InGet]\<rparr>
   \<and> pcs (fu_run [GetFuture, DestroyPromise, CallGet 0,
                  OnEvent (TimeOut 0), OnEvent (Resume 0), Next 0] (Promise_init 1 :: 'a Future)) ! 0
     = Got None"
proof -
  have "fu_run (concat (replicate k [OnEvent (TimeOut 0), OnEvent (Resume 0), Next 0]))
      (\<lparr>ev = \<lparr>ev_set = False, ev_threads = [Blocked WaitTimed]\<rparr>, obj = None,
         referenceCount = 2, promise = False, pcs = [InGet]\<rparr> :: 'a Future)
     = \<lparr>ev = \<lparr>ev_set = False, ev_threads = [Blocked WaitTimed]\<rparr>, obj = None,
         referenceCount = 2, promise = False, pcs = [InGet]\<rparr>"
    by (induction k) (simp_all add: fu_eval)
  moreover have "fu_run [GetFuture, CopyFuture, DestroyPromise, CallGet 0] (Promise_init 1 :: 'a Future)
     = \<lparr>ev = \<lparr>ev_set = False, ev_threads = [Blocked WaitTimed]\<rparr>, obj = None,
         referenceCount = 2, promise = False, pcs = [InGet]\<rparr>"
    by (simp add: fu_eval)
  moreover have "pcs (fu_run [GetFuture, DestroyPromise, CallGet 0,
                  OnEvent (TimeOut 0), OnEvent (Resume 0), Next 0] (Promise_init 1 :: 'a Future)) ! 0
     = Got None"
    by (simp add: fu_eval)
  ultimately show ?thesis by (simp only: fu_run_append)
qed

text \<open>
  C10. In a reachable state where thread \<open>t\<close> is outside \<^verbatim>\<open>get()\<close>: if the Promise exists,
  \<^verbatim>\<open>resolve(nullptr)\<close> makes \<^verbatim>\<open>isAvailable()\<close> and \<^verbatim>\<open>isResolved()\<close> true and the
  \<^verbatim>\<open>get()\<close> that follows returns null; if instead the event is not set and the cell is
  abandoned (reference count 1), a \<^verbatim>\<open>get()\<close> whose \<^verbatim>\<open>wait(1000u)\<close> times out returns null
  as well. The two calls return the same value.
\<close>

theorem resolve_null_like_abandoned:
  assumes "c = fu_run pre (Promise_init n)" and "t < n" and "outside (pcs c ! t)"
  shows "(promise c \<longrightarrow>
            isAvailable (fu_step (Resolve None) c) \<and> isResolved (fu_step (Resolve None) c)
          \<and> pcs (fu_run [Resolve None, CallGet t, Next t] c) ! t = Got None)
       \<and> (\<not> isAvailable c \<and> isAbandoned c \<longrightarrow>
            pcs (fu_run [CallGet t, OnEvent (TimeOut t), OnEvent (Resume t), Next t] c) ! t
              = Got None)"
proof -
  have "fu_wf c"
    unfolding assms(1) by (rule fu_wf_run) (rule fu_wf_init)
  then have len: "length (ev_threads (ev c)) = length (pcs c)"
    by (simp add: fu_wf_def)
  have t: "t < length (pcs c)"
    using assms(2) by (simp add: assms(1) Promise_init_def)
  have a: "promise c \<longrightarrow>
            isAvailable (fu_step (Resolve None) c) \<and> isResolved (fu_step (Resolve None) c)
          \<and> pcs (fu_run [Resolve None, CallGet t, Next t] c) ! t = Got None"
    using len t assms(3)
    by (simp add: isAvailable_def isResolved_def resolve_def enter_def get_next_def
        Event_wait_timed_def at_thread_def)
  have b: "\<not> isAvailable c \<and> isAbandoned c \<longrightarrow>
            pcs (fu_run [CallGet t, OnEvent (TimeOut t), OnEvent (Resume t), Next t] c) ! t
              = Got None"
    using len t assms(3)
    by (simp add: isAvailable_def isAbandoned_def enter_def get_next_def
        Event_wait_timed_def at_thread_def)
  from a b show ?thesis by blast
qed

theorem resolve_null_like_abandoned_witness:
  "(0::nat) < 1
   \<and> outside (pcs (fu_run [GetFuture] (Promise_init 1 :: nat Future)) ! 0)
   \<and> promise (fu_run [GetFuture] (Promise_init 1 :: nat Future))
   \<and> isAvailable (fu_step (Resolve None) (fu_run [GetFuture] (Promise_init 1 :: nat Future)))
   \<and> pcs (fu_run [Resolve None, CallGet 0, Next 0]
        (fu_run [GetFuture] (Promise_init 1 :: nat Future))) ! 0 = Got None
   \<and> outside (pcs (fu_run [GetFuture, DestroyPromise] (Promise_init 1 :: nat Future)) ! 0)
   \<and> \<not> isAvailable (fu_run [GetFuture, DestroyPromise] (Promise_init 1 :: nat Future))
   \<and> isAbandoned (fu_run [GetFuture, DestroyPromise] (Promise_init 1 :: nat Future))
   \<and> pcs (fu_run [CallGet 0, OnEvent (TimeOut 0), OnEvent (Resume 0), Next 0]
        (fu_run [GetFuture, DestroyPromise] (Promise_init 1 :: nat Future))) ! 0 = Got None"
proof -
  have z: "(0::nat) < 1" by simp
  have o1: "outside (pcs (fu_run [GetFuture] (Promise_init 1 :: nat Future)) ! 0)"
    by (simp add: fu_eval)
  have p1: "promise (fu_run [GetFuture] (Promise_init 1 :: nat Future))"
    by (simp add: fu_eval)
  have o2: "outside (pcs (fu_run [GetFuture, DestroyPromise] (Promise_init 1 :: nat Future)) ! 0)"
    by (simp add: fu_eval)
  have n2: "\<not> isAvailable (fu_run [GetFuture, DestroyPromise] (Promise_init 1 :: nat Future))"
    by (simp add: fu_eval)
  have a2: "isAbandoned (fu_run [GetFuture, DestroyPromise] (Promise_init 1 :: nat Future))"
    by (simp add: fu_eval)
  from resolve_null_like_abandoned [OF refl z o1] resolve_null_like_abandoned [OF refl z o2]
    z o1 p1 o2 n2 a2
  show ?thesis by blast
qed

section \<open>Gate\<close>

text \<open>
  \<^verbatim>\<open>
  inline void lock(T key) {                  inline void unlock(T key) {
      std::unique_lock<Mutex> lock(_m);          std::unique_lock<Mutex> lock(_m);
      while(_users[key] > 0)                     --_users[key];
          _unlocked.wait(lock);                  if (_users[key] == 0) {
      ++_users[key];                                 _users.erase(key);
  }                                                  _unlocked.notify_all();
                                                 }
  std::unordered_map<T, int> _users;         }
  \<close>
  A thread of the model is one use of the gate: it takes a key with \<^verbatim>\<open>lock\<close>, holds it,
  and gives it back with \<^verbatim>\<open>unlock\<close> (as \<^verbatim>\<open>ScopedGate\<close> does); \<^verbatim>\<open>unlock(key)\<close> is called by
  the holder of \<open>key\<close> only. The gate is not recursive, so a second \<^verbatim>\<open>lock\<close> by the thread
  that holds the key is one more thread of the model, which blocks.
\<close>

datatype 'k ga_thread = Free | Parked 'k | Roused 'k | Holding 'k

record 'k Gate =
  users :: "'k \<rightharpoonup> int"
  ga_threads :: "'k ga_thread list"

definition Gate_init :: "nat \<Rightarrow> 'k Gate" where
  "Gate_init n = \<lparr>users = Map.empty, ga_threads = replicate n Free\<rparr>"

text \<open>\<^verbatim>\<open>_users[key]\<close>: \<^verbatim>\<open>operator[]\<close> of \<^verbatim>\<open>std::unordered_map\<close> inserts the key with the
  value 0 when it is absent, and yields the value stored.\<close>

definition subscript :: "('k \<rightharpoonup> int) \<Rightarrow> 'k \<Rightarrow> ('k \<rightharpoonup> int) \<times> int" where
  "subscript m k = (case m k of None \<Rightarrow> (m(k \<mapsto> 0), 0) | Some c \<Rightarrow> (m, c))"

fun ga_rouse :: "'k ga_thread \<Rightarrow> 'k ga_thread" where
  "ga_rouse (Parked k) = Roused k"
| "ga_rouse th = th"

text \<open>The critical section of \<^verbatim>\<open>lock(key)\<close> run by thread \<open>t\<close>: the test of the loop, and
  either the block in \<^verbatim>\<open>_unlocked.wait\<close> or the increment. It runs when \<^verbatim>\<open>lock\<close> is called
  and again each time the thread has been unblocked.\<close>

definition Gate_lock :: "nat \<Rightarrow> 'k \<Rightarrow> 'k Gate \<Rightarrow> 'k Gate" where
  "Gate_lock t key g =
     (let (m, c) = subscript (users g) key in
      if c > 0 then g\<lparr>users := m, ga_threads := (ga_threads g)[t := Parked key]\<rparr>
      else let (m', c') = subscript m key in
           g\<lparr>users := m'(key \<mapsto> c' + 1), ga_threads := (ga_threads g)[t := Holding key]\<rparr>)"

definition Gate_unlock :: "nat \<Rightarrow> 'k \<Rightarrow> 'k Gate \<Rightarrow> 'k Gate" where
  "Gate_unlock t key g =
     (let (m, c) = subscript (users g) key;
          m1 = m(key \<mapsto> c - 1);
          (m2, c2) = subscript m1 key in
      if c2 = 0
      then g\<lparr>users := m2(key := None), ga_threads := map ga_rouse ((ga_threads g)[t := Free])\<rparr>
      else g\<lparr>users := m2, ga_threads := (ga_threads g)[t := Free]\<rparr>)"

datatype 'k ga_action = Lock nat 'k | Unlock nat | Again nat | Stir nat

fun ga_step :: "'k ga_action \<Rightarrow> 'k Gate \<Rightarrow> 'k Gate" where
  "ga_step (Lock t key) g =
     (if t < length (ga_threads g) \<and> ga_threads g ! t = Free then Gate_lock t key g else g)"
| "ga_step (Unlock t) g =
     (if t < length (ga_threads g)
      then (case ga_threads g ! t of Holding key \<Rightarrow> Gate_unlock t key g | _ \<Rightarrow> g)
      else g)"
| "ga_step (Again t) g =
     (if t < length (ga_threads g)
      then (case ga_threads g ! t of Roused key \<Rightarrow> Gate_lock t key g | _ \<Rightarrow> g)
      else g)"
| "ga_step (Stir t) g =
     (if t < length (ga_threads g)
      then (case ga_threads g ! t of
              Parked key \<Rightarrow> g\<lparr>ga_threads := (ga_threads g)[t := Roused key]\<rparr>
            | _ \<Rightarrow> g)
      else g)"

definition ga_run :: "'k ga_action list \<Rightarrow> 'k Gate \<Rightarrow> 'k Gate" where
  "ga_run sched g = fold ga_step sched g"

fun is_parked :: "'k ga_thread \<Rightarrow> bool" where
  "is_parked (Parked k) = True"
| "is_parked th = False"

text \<open>Key \<open>k\<close> is in the map exactly when some thread holds it, its count is then 1, and
  no two threads hold the same key.\<close>

definition held :: "'k Gate \<Rightarrow> 'k \<Rightarrow> bool" where
  "held g k = (\<exists>t < length (ga_threads g). ga_threads g ! t = Holding k)"

definition ga_inv :: "'k Gate \<Rightarrow> bool" where
  "ga_inv g = ((\<forall>k. users g k = (if held g k then Some 1 else None))
             \<and> (\<forall>t u k. t < length (ga_threads g) \<and> u < length (ga_threads g)
                   \<and> ga_threads g ! t = Holding k \<and> ga_threads g ! u = Holding k \<longrightarrow> t = u))"

lemma ga_run_Nil [simp]: "ga_run [] g = g"
  by (simp add: ga_run_def)

lemma ga_run_Cons [simp]: "ga_run (a # sched) g = ga_run sched (ga_step a g)"
  by (simp add: ga_run_def)

lemma length_Gate_lock [simp]: "length (ga_threads (Gate_lock t k g)) = length (ga_threads g)"
  by (simp add: Gate_lock_def Let_def split: prod.splits)

lemma length_Gate_unlock [simp]: "length (ga_threads (Gate_unlock t k g)) = length (ga_threads g)"
  by (simp add: Gate_unlock_def Let_def split: prod.splits)

lemma length_ga_step [simp]: "length (ga_threads (ga_step a g)) = length (ga_threads g)"
  by (cases a) (auto split: ga_thread.splits)

lemma length_ga_run [simp]: "length (ga_threads (ga_run sched g)) = length (ga_threads g)"
  by (induction sched arbitrary: g) simp_all

lemma Gate_lock_taken:
  assumes "users g k = Some 1"
  shows "Gate_lock t k g = g\<lparr>ga_threads := (ga_threads g)[t := Parked k]\<rparr>"
  using assms by (simp add: Gate_lock_def subscript_def)

lemma Gate_lock_vacant:
  assumes "users g k = None"
  shows "Gate_lock t k g = g\<lparr>users := (users g)(k \<mapsto> 1), ga_threads := (ga_threads g)[t := Holding k]\<rparr>"
  using assms by (simp add: Gate_lock_def subscript_def)

lemma Gate_unlock_last:
  assumes "users g k = Some 1"
  shows "Gate_unlock t k g =
    g\<lparr>users := (users g)(k := None), ga_threads := map ga_rouse ((ga_threads g)[t := Free])\<rparr>"
  using assms by (simp add: Gate_unlock_def subscript_def)

lemma ga_rouse_Holding [simp]: "ga_rouse th = Holding k \<longleftrightarrow> th = Holding k"
  by (cases th) auto

lemma not_parked_ga_rouse [simp]: "\<not> is_parked (ga_rouse th)"
  by (cases th) simp_all

lemma held_update_other:
  assumes "t < length (ga_threads g)" and "\<forall>k. th \<noteq> Holding k"
    and "\<forall>k. ga_threads g ! t \<noteq> Holding k"
  shows "held (g\<lparr>ga_threads := (ga_threads g)[t := th]\<rparr>) k = held g k"
proof
  assume "held (g\<lparr>ga_threads := (ga_threads g)[t := th]\<rparr>) k"
  then obtain u where u: "u < length (ga_threads g)" "(ga_threads g)[t := th] ! u = Holding k"
    by (auto simp: held_def)
  with assms(2) have "u \<noteq> t" by (auto simp: nth_list_update)
  with u show "held g k" by (auto simp: held_def)
next
  assume "held g k"
  then obtain u where u: "u < length (ga_threads g)" "ga_threads g ! u = Holding k"
    by (auto simp: held_def)
  with assms(3) have "u \<noteq> t" by auto
  with u show "held (g\<lparr>ga_threads := (ga_threads g)[t := th]\<rparr>) k"
    by (auto simp: held_def)
qed

lemma ga_inv_update_other:
  assumes "ga_inv g" and "t < length (ga_threads g)" and "\<forall>k. th \<noteq> Holding k"
    and "\<forall>k. ga_threads g ! t \<noteq> Holding k"
  shows "ga_inv (g\<lparr>ga_threads := (ga_threads g)[t := th]\<rparr>)"
proof -
  have h: "\<And>k. held (g\<lparr>ga_threads := (ga_threads g)[t := th]\<rparr>) k = held g k"
    using assms(2-4) by (rule held_update_other)
  have "\<forall>k. users g k = (if held g k then Some 1 else None)"
    using assms(1) by (simp add: ga_inv_def)
  moreover have "\<forall>a b k. a < length (ga_threads g) \<and> b < length (ga_threads g)
      \<and> (ga_threads g)[t := th] ! a = Holding k \<and> (ga_threads g)[t := th] ! b = Holding k
      \<longrightarrow> a = b"
  proof (intro allI impI)
    fix a b k
    assume ab: "a < length (ga_threads g) \<and> b < length (ga_threads g)
      \<and> (ga_threads g)[t := th] ! a = Holding k \<and> (ga_threads g)[t := th] ! b = Holding k"
    with assms(3) have "a \<noteq> t" "b \<noteq> t" by (auto simp: nth_list_update)
    with ab have "ga_threads g ! a = Holding k" "ga_threads g ! b = Holding k" by auto
    with ab assms(1) show "a = b" unfolding ga_inv_def by blast
  qed
  ultimately show ?thesis unfolding ga_inv_def by (simp add: h)
qed

lemma ga_inv_lock:
  assumes "ga_inv g" and "t < length (ga_threads g)" and "\<forall>k. ga_threads g ! t \<noteq> Holding k"
  shows "ga_inv (Gate_lock t key g)"
proof (cases "held g key")
  case True
  then have "users g key = Some 1"
    using assms(1) by (simp add: ga_inv_def)
  then have "Gate_lock t key g = g\<lparr>ga_threads := (ga_threads g)[t := Parked key]\<rparr>"
    by (rule Gate_lock_taken)
  moreover have "ga_inv (g\<lparr>ga_threads := (ga_threads g)[t := Parked key]\<rparr>)"
    using assms by (intro ga_inv_update_other) simp_all
  ultimately show ?thesis by simp
next
  case False
  then have none: "users g key = None"
    using assms(1) by (simp add: ga_inv_def)
  have nobody: "\<forall>u < length (ga_threads g). ga_threads g ! u \<noteq> Holding key"
    using False by (auto simp: held_def)
  define g' where "g' = g\<lparr>users := (users g)(key \<mapsto> 1),
      ga_threads := (ga_threads g)[t := Holding key]\<rparr>"
  have eq: "Gate_lock t key g = g'"
    unfolding g'_def using none by (rule Gate_lock_vacant)
  have h: "\<And>k. held g' k = (k = key \<or> held g k)"
  proof
    fix k assume "held g' k"
    then obtain u where u: "u < length (ga_threads g)"
        "(ga_threads g)[t := Holding key] ! u = Holding k"
      by (auto simp: held_def g'_def)
    show "k = key \<or> held g k"
    proof (cases "u = t")
      case True
      with u show ?thesis by simp
    next
      case False
      with u show ?thesis by (auto simp: held_def)
    qed
  next
    fix k assume "k = key \<or> held g k"
    then show "held g' k"
    proof
      assume "k = key"
      then show ?thesis using assms(2) by (auto simp: held_def g'_def)
    next
      assume "held g k"
      then obtain u where u: "u < length (ga_threads g)" "ga_threads g ! u = Holding k"
        by (auto simp: held_def)
      with assms(3) have "u \<noteq> t" by auto
      with u show ?thesis by (auto simp: held_def g'_def)
    qed
  qed
  have u1: "\<forall>k. users g' k = (if held g' k then Some 1 else None)"
    using assms(1) by (simp add: h) (simp add: g'_def ga_inv_def)
  have u2: "\<forall>a b k. a < length (ga_threads g') \<and> b < length (ga_threads g')
      \<and> ga_threads g' ! a = Holding k \<and> ga_threads g' ! b = Holding k \<longrightarrow> a = b"
  proof (intro allI impI)
    fix a b k
    assume ab: "a < length (ga_threads g') \<and> b < length (ga_threads g')
      \<and> ga_threads g' ! a = Holding k \<and> ga_threads g' ! b = Holding k"
    then have la: "a < length (ga_threads g)" and lb: "b < length (ga_threads g)"
      by (simp_all add: g'_def)
    show "a = b"
    proof (cases "k = key")
      case True
      have "a = t"
      proof (rule ccontr)
        assume "a \<noteq> t"
        with ab have "ga_threads g ! a = Holding key" by (simp add: g'_def True)
        with nobody la show False by simp
      qed
      moreover have "b = t"
      proof (rule ccontr)
        assume "b \<noteq> t"
        with ab have "ga_threads g ! b = Holding key" by (simp add: g'_def True)
        with nobody lb show False by simp
      qed
      ultimately show ?thesis by simp
    next
      case False
      with ab have "a \<noteq> t" "b \<noteq> t" using la lb by (auto simp: g'_def nth_list_update)
      with ab have "ga_threads g ! a = Holding k" "ga_threads g ! b = Holding k"
        by (simp_all add: g'_def)
      with la lb assms(1) show ?thesis unfolding ga_inv_def by blast
    qed
  qed
  from u1 u2 have "ga_inv g'" unfolding ga_inv_def by blast
  with eq show ?thesis by simp
qed

lemma ga_inv_unlock:
  assumes "ga_inv g" and "t < length (ga_threads g)" and "ga_threads g ! t = Holding key"
  shows "ga_inv (Gate_unlock t key g)"
proof -
  have "held g key"
    using assms(2,3) by (auto simp: held_def)
  then have one: "users g key = Some 1"
    using assms(1) by (simp add: ga_inv_def)
  define g' where "g' = g\<lparr>users := (users g)(key := None),
      ga_threads := map ga_rouse ((ga_threads g)[t := Free])\<rparr>"
  have eq: "Gate_unlock t key g = g'"
    unfolding g'_def using one by (rule Gate_unlock_last)
  have nth: "\<And>u k. u < length (ga_threads g) \<Longrightarrow>
      (ga_threads g' ! u = Holding k) = (u \<noteq> t \<and> ga_threads g ! u = Holding k)"
    using assms(2) by (auto simp: g'_def nth_list_update)
  have sole: "\<And>u. u < length (ga_threads g) \<Longrightarrow> ga_threads g ! u = Holding key \<Longrightarrow> u = t"
    using assms unfolding ga_inv_def by blast
  have h: "\<And>k. held g' k = (k \<noteq> key \<and> held g k)"
  proof
    fix k assume "held g' k"
    then obtain u where u: "u < length (ga_threads g)" "ga_threads g' ! u = Holding k"
      by (auto simp: held_def g'_def)
    then have *: "u \<noteq> t" "ga_threads g ! u = Holding k" by (simp_all add: nth)
    then have "k \<noteq> key" using sole u(1) by blast
    then show "k \<noteq> key \<and> held g k" using * u(1) by (auto simp: held_def)
  next
    fix k assume a: "k \<noteq> key \<and> held g k"
    then obtain u where u: "u < length (ga_threads g)" "ga_threads g ! u = Holding k"
      by (auto simp: held_def)
    with a assms(3) have "u \<noteq> t" by auto
    with u have "ga_threads g' ! u = Holding k" by (simp add: nth)
    moreover have "u < length (ga_threads g')" using u(1) by (simp add: g'_def)
    ultimately show "held g' k" unfolding held_def by blast
  qed
  have u1: "\<forall>k. users g' k = (if held g' k then Some 1 else None)"
    using assms(1) by (simp add: h) (simp add: g'_def ga_inv_def)
  have u2: "\<forall>a b k. a < length (ga_threads g') \<and> b < length (ga_threads g')
      \<and> ga_threads g' ! a = Holding k \<and> ga_threads g' ! b = Holding k \<longrightarrow> a = b"
  proof (intro allI impI)
    fix a b k
    assume ab: "a < length (ga_threads g') \<and> b < length (ga_threads g')
      \<and> ga_threads g' ! a = Holding k \<and> ga_threads g' ! b = Holding k"
    then have la: "a < length (ga_threads g)" and lb: "b < length (ga_threads g)"
      by (simp_all add: g'_def)
    with ab have "ga_threads g ! a = Holding k" "ga_threads g ! b = Holding k"
      by (simp_all add: nth)
    with la lb assms(1) show "a = b" unfolding ga_inv_def by blast
  qed
  from u1 u2 have "ga_inv g'" unfolding ga_inv_def by blast
  with eq show ?thesis by simp
qed

lemma ga_inv_step: "ga_inv g \<Longrightarrow> ga_inv (ga_step a g)"
proof (cases a)
  case (Lock t key)
  assume "ga_inv g"
  then show ?thesis using Lock by (simp add: ga_inv_lock)
next
  case (Unlock t)
  assume "ga_inv g"
  then show ?thesis using Unlock by (simp add: ga_inv_unlock split: ga_thread.splits)
next
  case (Again t)
  assume "ga_inv g"
  then show ?thesis using Again by (simp add: ga_inv_lock split: ga_thread.splits)
next
  case (Stir t)
  assume "ga_inv g"
  then show ?thesis using Stir by (simp add: ga_inv_update_other split: ga_thread.splits)
qed

lemma ga_inv_run: "ga_inv g \<Longrightarrow> ga_inv (ga_run sched g)"
  by (induction sched arbitrary: g) (simp_all add: ga_inv_step)

lemma ga_inv_init: "ga_inv (Gate_init n)"
  by (auto simp: ga_inv_def Gate_init_def held_def)

text \<open>
  C3. In every state \<open>g\<close> that a schedule of \<^verbatim>\<open>lock\<close> and \<^verbatim>\<open>unlock\<close> operations reaches
  from an empty gate (each state is one in which the gate's mutex is free): no two threads
  hold the same key; every key present in \<^verbatim>\<open>_users\<close> has a count greater than 0; the
  \<^verbatim>\<open>unlock(k)\<close> of the thread that holds \<open>k\<close> finds the count 1, brings it to 0, erases the
  entry of \<open>k\<close> and unblocks every blocked thread, whatever key it waits for; and a
  \<^verbatim>\<open>lock(k)\<close> acquires \<open>k\<close> at once when no thread holds \<open>k\<close> and blocks otherwise.
\<close>

theorem Gate_exclusion:
  assumes "g = ga_run sched (Gate_init n)"
  shows "(\<forall>t u k. t < n \<and> u < n \<and> ga_threads g ! t = Holding k \<and> ga_threads g ! u = Holding k
            \<longrightarrow> t = u)
       \<and> (\<forall>k c. users g k = Some c \<longrightarrow> 0 < c)
       \<and> (\<forall>t k. t < n \<and> ga_threads g ! t = Holding k \<longrightarrow>
              users g k = Some 1
            \<and> users (ga_step (Unlock t) g) k = None
            \<and> (\<forall>th \<in> set (ga_threads (ga_step (Unlock t) g)). \<not> is_parked th)
            \<and> (\<forall>u k'. u < n \<and> ga_threads g ! u = Parked k'
                  \<longrightarrow> ga_threads (ga_step (Unlock t) g) ! u = Roused k'))
       \<and> (\<forall>t k. t < n \<and> ga_threads g ! t = Free \<longrightarrow>
              ga_threads (ga_step (Lock t k) g) ! t = (if held g k then Parked k else Holding k))"
proof -
  have inv: "ga_inv g"
    unfolding assms by (rule ga_inv_run) (rule ga_inv_init)
  have len: "length (ga_threads g) = n"
    unfolding assms by (simp add: Gate_init_def)
  have users: "\<And>k. users g k = (if held g k then Some 1 else None)"
    using inv by (simp add: ga_inv_def)
  have c1: "\<forall>t u k. t < n \<and> u < n \<and> ga_threads g ! t = Holding k \<and> ga_threads g ! u = Holding k
            \<longrightarrow> t = u"
    using inv len unfolding ga_inv_def by blast
  have c2: "\<forall>k c. users g k = Some c \<longrightarrow> 0 < c"
    by (simp add: users)
  have c3: "\<forall>t k. t < n \<and> ga_threads g ! t = Holding k \<longrightarrow>
              users g k = Some 1
            \<and> users (ga_step (Unlock t) g) k = None
            \<and> (\<forall>th \<in> set (ga_threads (ga_step (Unlock t) g)). \<not> is_parked th)
            \<and> (\<forall>u k'. u < n \<and> ga_threads g ! u = Parked k'
                  \<longrightarrow> ga_threads (ga_step (Unlock t) g) ! u = Roused k')"
  proof (intro allI impI)
    fix t k assume h: "t < n \<and> ga_threads g ! t = Holding k"
    then have "held g k" using len by (auto simp: held_def)
    then have one: "users g k = Some 1" by (simp add: users)
    have st: "ga_step (Unlock t) g = g\<lparr>users := (users g)(k := None),
        ga_threads := map ga_rouse ((ga_threads g)[t := Free])\<rparr>"
      using h len Gate_unlock_last [OF one] by simp
    have "\<forall>u k'. u < n \<and> ga_threads g ! u = Parked k'
                  \<longrightarrow> ga_threads (ga_step (Unlock t) g) ! u = Roused k'"
    proof (intro allI impI)
      fix u k' assume u: "u < n \<and> ga_threads g ! u = Parked k'"
      with h have "u \<noteq> t" by auto
      with u len show "ga_threads (ga_step (Unlock t) g) ! u = Roused k'"
        unfolding st by simp
    qed
    with one show "users g k = Some 1
            \<and> users (ga_step (Unlock t) g) k = None
            \<and> (\<forall>th \<in> set (ga_threads (ga_step (Unlock t) g)). \<not> is_parked th)
            \<and> (\<forall>u k'. u < n \<and> ga_threads g ! u = Parked k'
                  \<longrightarrow> ga_threads (ga_step (Unlock t) g) ! u = Roused k')"
      unfolding st by simp
  qed
  have c4: "\<forall>t k. t < n \<and> ga_threads g ! t = Free \<longrightarrow>
              ga_threads (ga_step (Lock t k) g) ! t = (if held g k then Parked k else Holding k)"
  proof (intro allI impI)
    fix t k assume h: "t < n \<and> ga_threads g ! t = Free"
    show "ga_threads (ga_step (Lock t k) g) ! t = (if held g k then Parked k else Holding k)"
    proof (cases "held g k")
      case True
      then have "users g k = Some 1" by (simp add: users)
      from Gate_lock_taken [OF this] h len True show ?thesis by simp
    next
      case False
      then have "users g k = None" by (simp add: users)
      from Gate_lock_vacant [OF this] h len False show ?thesis by simp
    qed
  qed
  from c1 c2 c3 c4 show ?thesis by blast
qed

lemmas ga_eval = Gate_init_def Gate_lock_def Gate_unlock_def subscript_def

theorem Gate_exclusion_witness:
  "ga_threads (ga_run [Lock 0 5, Lock 1 5, Lock 2 6] (Gate_init 3 :: nat Gate))
     = [Holding 5, Parked 5, Holding 6]
   \<and> users (ga_run [Lock 0 5, Lock 1 5, Lock 2 6] (Gate_init 3 :: nat Gate)) 5 = Some 1
   \<and> 0 < the (users (ga_run [Lock 0 5, Lock 1 5, Lock 2 6] (Gate_init 3 :: nat Gate)) 6)
   \<and> users (ga_step (Unlock 0)
        (ga_run [Lock 0 5, Lock 1 5, Lock 2 6] (Gate_init 3 :: nat Gate))) 5 = None
   \<and> ga_threads (ga_step (Unlock 0)
        (ga_run [Lock 0 5, Lock 1 5, Lock 2 6] (Gate_init 3 :: nat Gate))) ! 1 = Roused 5
   \<and> ga_threads (ga_run [Lock 0 5] (Gate_init 3 :: nat Gate)) = [Holding 5, Free, Free]
   \<and> held (ga_run [Lock 0 5] (Gate_init 3 :: nat Gate)) 5
   \<and> \<not> held (ga_run [Lock 0 5] (Gate_init 3 :: nat Gate)) 6
   \<and> ga_threads (ga_step (Lock 1 5) (ga_run [Lock 0 5] (Gate_init 3 :: nat Gate))) ! 1 = Parked 5
   \<and> ga_threads (ga_step (Lock 1 6) (ga_run [Lock 0 5] (Gate_init 3 :: nat Gate))) ! 1 = Holding 6
   \<and> ga_threads (ga_run [Lock 0 5, Lock 1 5, Unlock 0, Again 1] (Gate_init 3 :: nat Gate))
     = [Free, Holding 5, Free]"
proof -
  have t: "ga_threads (ga_run [Lock 0 5, Lock 1 5, Lock 2 6] (Gate_init 3 :: nat Gate))
     = [Holding 5, Parked 5, Holding 6]"
    by (simp add: ga_eval numeral_3_eq_3)
  then have h0: "(0::nat) < 3 \<and>
      ga_threads (ga_run [Lock 0 5, Lock 1 5, Lock 2 6] (Gate_init 3 :: nat Gate)) ! 0 = Holding 5"
    by simp
  from t have h1: "(1::nat) < 3 \<and>
      ga_threads (ga_run [Lock 0 5, Lock 1 5, Lock 2 6] (Gate_init 3 :: nat Gate)) ! 1 = Parked 5"
    by simp
  have u6: "users (ga_run [Lock 0 5, Lock 1 5, Lock 2 6] (Gate_init 3 :: nat Gate)) 6 = Some 1"
    by (simp add: ga_eval numeral_3_eq_3)
  have t2: "ga_threads (ga_run [Lock 0 5] (Gate_init 3 :: nat Gate)) = [Holding 5, Free, Free]"
    by (simp add: ga_eval numeral_3_eq_3)
  then have f1: "(1::nat) < 3 \<and> ga_threads (ga_run [Lock 0 5] (Gate_init 3 :: nat Gate)) ! 1 = Free"
    by simp
  have hd5: "held (ga_run [Lock 0 5] (Gate_init 3 :: nat Gate)) 5"
    unfolding held_def t2 by (intro exI [of _ 0]) simp
  have hd6: "\<not> held (ga_run [Lock 0 5] (Gate_init 3 :: nat Gate)) 6"
    unfolding held_def t2 by (auto simp: nth_Cons' split: if_splits)
  have t3: "ga_threads (ga_run [Lock 0 5, Lock 1 5, Unlock 0, Again 1] (Gate_init 3 :: nat Gate))
     = [Free, Holding 5, Free]"
    by (simp add: ga_eval numeral_3_eq_3)
  have c1: "users (ga_run [Lock 0 5, Lock 1 5, Lock 2 6] (Gate_init 3 :: nat Gate)) 5 = Some 1
      \<and> users (ga_step (Unlock 0)
        (ga_run [Lock 0 5, Lock 1 5, Lock 2 6] (Gate_init 3 :: nat Gate))) 5 = None
      \<and> ga_threads (ga_step (Unlock 0)
        (ga_run [Lock 0 5, Lock 1 5, Lock 2 6] (Gate_init 3 :: nat Gate))) ! 1 = Roused 5"
    using Gate_exclusion [where sched = "[Lock 0 5, Lock 1 5, Lock 2 6]" and n = 3
      and ?'a = nat, OF refl] h0 h1
    by blast
  have "0 < (1::int)" by simp
  moreover have "\<And>c. users (ga_run [Lock 0 5, Lock 1 5, Lock 2 6] (Gate_init 3 :: nat Gate)) 6
      = Some c \<Longrightarrow> 0 < c"
    using Gate_exclusion [where sched = "[Lock 0 5, Lock 1 5, Lock 2 6]" and n = 3
      and ?'a = nat, OF refl]
    by blast
  then have c2: "0 < the (users (ga_run [Lock 0 5, Lock 1 5, Lock 2 6] (Gate_init 3 :: nat Gate)) 6)"
    using u6 by simp
  have c3: "ga_threads (ga_step (Lock 1 5) (ga_run [Lock 0 5] (Gate_init 3 :: nat Gate))) ! 1
        = (if held (ga_run [Lock 0 5] (Gate_init 3 :: nat Gate)) 5 then Parked 5 else Holding 5)
      \<and> ga_threads (ga_step (Lock 1 6) (ga_run [Lock 0 5] (Gate_init 3 :: nat Gate))) ! 1
        = (if held (ga_run [Lock 0 5] (Gate_init 3 :: nat Gate)) 6 then Parked 6 else Holding 6)"
    using Gate_exclusion [where sched = "[Lock 0 5]" and n = 3 and ?'a = nat, OF refl] f1
    by blast
  then have c4: "ga_threads (ga_step (Lock 1 5) (ga_run [Lock 0 5] (Gate_init 3 :: nat Gate))) ! 1
        = Parked 5
      \<and> ga_threads (ga_step (Lock 1 6) (ga_run [Lock 0 5] (Gate_init 3 :: nat Gate))) ! 1
        = Holding 6"
    using hd5 hd6 by simp
  from t c1 c2 t2 hd5 hd6 c4 t3 show ?thesis by blast
qed

section \<open>ReadWriteMutex\<close>

text \<open>
  \<^verbatim>\<open>
  void ReadWriteMutex::read_lock()            void ReadWriteMutex::write_lock()
  {                                           {
      std::unique_lock<Mutex> lock(_m);           std::unique_lock<Mutex> lock(_m);
      while (_writers > 0)                        while (_writers > 0 || _readers > 0)
          _unlocked.wait(lock);                       _unlocked.wait(lock);
      ++_readers;                                 ++_writers;
  }                                           }
  void ReadWriteMutex::read_unlock()          void ReadWriteMutex::write_unlock()
  {                                           {
      std::unique_lock<Mutex> lock(_m);           std::unique_lock<Mutex> lock(_m);
      --_readers;                                 _writers = 0;
      if (_readers == 0)                          _unlocked.notify_all();
          _unlocked.notify_all();             }
  }
  unsigned _writers;  unsigned _readers;
  \<close>
  The counters are 32-bit unsigned integers. A thread of the model is one use of the
  lock: it acquires it for reading or for writing, holds it, and releases it with the
  matching unlock (as \<^verbatim>\<open>ScopedReadLock\<close> and \<^verbatim>\<open>ScopedWriteLock\<close> do). A thread that takes
  the read lock a second time while it holds it is one more thread of the model.
\<close>

datatype rw_mode = Shared | Exclusive

datatype rw_thread = Away | Pending rw_mode | Notified rw_mode | Reading | Writing

record ReadWriteMutex =
  writers :: "32 word"
  readers :: "32 word"
  rw_threads :: "rw_thread list"

definition ReadWriteMutex_init :: "nat \<Rightarrow> ReadWriteMutex" where
  "ReadWriteMutex_init n = \<lparr>writers = 0, readers = 0, rw_threads = replicate n Away\<rparr>"

fun rw_notify :: "rw_thread \<Rightarrow> rw_thread" where
  "rw_notify (Pending md) = Notified md"
| "rw_notify th = th"

definition rw_notify_all :: "ReadWriteMutex \<Rightarrow> ReadWriteMutex" where
  "rw_notify_all m = m\<lparr>rw_threads := map rw_notify (rw_threads m)\<rparr>"

text \<open>The critical section of \<^verbatim>\<open>read_lock\<close> and of \<^verbatim>\<open>write_lock\<close> run by thread \<open>t\<close>:
  the test of the loop, then the block in \<^verbatim>\<open>_unlocked.wait\<close> or the increment. It runs
  at the call and again each time the thread has been unblocked.\<close>

definition read_lock :: "nat \<Rightarrow> ReadWriteMutex \<Rightarrow> ReadWriteMutex" where
  "read_lock t m =
     (if writers m > 0 then m\<lparr>rw_threads := (rw_threads m)[t := Pending Shared]\<rparr>
      else m\<lparr>readers := readers m + 1, rw_threads := (rw_threads m)[t := Reading]\<rparr>)"

definition write_lock :: "nat \<Rightarrow> ReadWriteMutex \<Rightarrow> ReadWriteMutex" where
  "write_lock t m =
     (if writers m > 0 \<or> readers m > 0
      then m\<lparr>rw_threads := (rw_threads m)[t := Pending Exclusive]\<rparr>
      else m\<lparr>writers := writers m + 1, rw_threads := (rw_threads m)[t := Writing]\<rparr>)"

definition read_unlock :: "nat \<Rightarrow> ReadWriteMutex \<Rightarrow> ReadWriteMutex" where
  "read_unlock t m =
     (let m1 = m\<lparr>readers := readers m - 1, rw_threads := (rw_threads m)[t := Away]\<rparr>
      in if readers m1 = 0 then rw_notify_all m1 else m1)"

definition write_unlock :: "nat \<Rightarrow> ReadWriteMutex \<Rightarrow> ReadWriteMutex" where
  "write_unlock t m = rw_notify_all (m\<lparr>writers := 0, rw_threads := (rw_threads m)[t := Away]\<rparr>)"

datatype rw_action = RLock nat | WLock nat | RUnlock nat | WUnlock nat | Retry nat | Wake nat

fun rw_step :: "rw_action \<Rightarrow> ReadWriteMutex \<Rightarrow> ReadWriteMutex" where
  "rw_step (RLock t) m =
     (if t < length (rw_threads m) \<and> rw_threads m ! t = Away then read_lock t m else m)"
| "rw_step (WLock t) m =
     (if t < length (rw_threads m) \<and> rw_threads m ! t = Away then write_lock t m else m)"
| "rw_step (RUnlock t) m =
     (if t < length (rw_threads m) \<and> rw_threads m ! t = Reading then read_unlock t m else m)"
| "rw_step (WUnlock t) m =
     (if t < length (rw_threads m) \<and> rw_threads m ! t = Writing then write_unlock t m else m)"
| "rw_step (Retry t) m =
     (if t < length (rw_threads m)
      then (case rw_threads m ! t of
              Notified Shared \<Rightarrow> read_lock t m
            | Notified Exclusive \<Rightarrow> write_lock t m
            | _ \<Rightarrow> m)
      else m)"
| "rw_step (Wake t) m =
     (if t < length (rw_threads m)
      then (case rw_threads m ! t of
              Pending md \<Rightarrow> m\<lparr>rw_threads := (rw_threads m)[t := Notified md]\<rparr>
            | _ \<Rightarrow> m)
      else m)"

definition rw_run :: "rw_action list \<Rightarrow> ReadWriteMutex \<Rightarrow> ReadWriteMutex" where
  "rw_run sched m = fold rw_step sched m"

text \<open>The number of threads that hold the lock for reading, and for writing.\<close>

definition reading :: "ReadWriteMutex \<Rightarrow> nat" where
  "reading m = count_list (rw_threads m) Reading"

definition writing :: "ReadWriteMutex \<Rightarrow> nat" where
  "writing m = count_list (rw_threads m) Writing"

definition rw_inv :: "ReadWriteMutex \<Rightarrow> bool" where
  "rw_inv m = (unat (readers m) = reading m \<and> unat (writers m) = writing m
             \<and> writing m \<le> 1 \<and> (writing m = 1 \<longrightarrow> reading m = 0))"

lemma rw_run_Nil [simp]: "rw_run [] m = m"
  by (simp add: rw_run_def)

lemma rw_run_Cons [simp]: "rw_run (a # sched) m = rw_run sched (rw_step a m)"
  by (simp add: rw_run_def)

lemma count_list_update:
  "t < length xs \<Longrightarrow>
   count_list (xs[t := y]) z + (if xs ! t = z then 1 else 0)
     = count_list xs z + (if y = z then 1 else 0)"
proof (induction xs arbitrary: t)
  case Nil
  then show ?case by simp
next
  case (Cons x xs)
  show ?case
  proof (cases t)
    case 0
    then show ?thesis by simp
  next
    case (Suc u)
    with Cons.prems have "u < length xs" by simp
    from Cons.IH [OF this] Suc show ?thesis by (simp split: if_splits)
  qed
qed

lemma count_list_nth_pos: "t < length xs \<Longrightarrow> xs ! t = z \<Longrightarrow> 0 < count_list xs z"
  by (metis count_list_0_iff neq0_conv nth_mem)

lemma count_list_rw_notify:
  "z = Reading \<or> z = Writing \<Longrightarrow> count_list (map rw_notify xs) z = count_list xs z"
proof (induction xs)
  case Nil
  then show ?case by simp
next
  case (Cons x xs)
  then show ?case by (cases x) auto
qed

lemma reading_notify_all [simp]: "reading (rw_notify_all m) = reading m"
  by (simp add: reading_def rw_notify_all_def count_list_rw_notify)

lemma writing_notify_all [simp]: "writing (rw_notify_all m) = writing m"
  by (simp add: writing_def rw_notify_all_def count_list_rw_notify)

lemma length_rw_step [simp]: "length (rw_threads (rw_step a m)) = length (rw_threads m)"
  by (cases a)
     (auto simp: read_lock_def write_lock_def read_unlock_def write_unlock_def
        rw_notify_all_def Let_def split: rw_thread.splits rw_mode.splits)

lemma length_rw_run [simp]: "length (rw_threads (rw_run sched m)) = length (rw_threads m)"
  by (induction sched arbitrary: m) simp_all

lemma word32_pos: "(0 < (w :: 32 word)) = (unat w \<noteq> 0)"
  by (simp add: word_gt_0 unat_eq_0)

lemma word32_zero: "((w :: 32 word) = 0) = (unat w = 0)"
  by (simp add: unat_eq_0)

lemma unat_succ32: "unat (w :: 32 word) < n \<Longrightarrow> n < 2 ^ 32 \<Longrightarrow> unat (w + 1) = unat w + 1"
  by (simp add: unat_word_ariths)

lemma unat_pred32: "0 < unat (w :: 32 word) \<Longrightarrow> unat (w - 1) = unat w - 1"
  by (metis unat_minus_one unat_gt_0)

lemma reading_update:
  "t < length (rw_threads m) \<Longrightarrow>
   reading (m\<lparr>rw_threads := (rw_threads m)[t := y]\<rparr>) + (if rw_threads m ! t = Reading then 1 else 0)
     = reading m + (if y = Reading then 1 else 0)"
  by (simp add: reading_def count_list_update)

lemma writing_update:
  "t < length (rw_threads m) \<Longrightarrow>
   writing (m\<lparr>rw_threads := (rw_threads m)[t := y]\<rparr>) + (if rw_threads m ! t = Writing then 1 else 0)
     = writing m + (if y = Writing then 1 else 0)"
  by (simp add: writing_def count_list_update)

lemma reading_le: "reading m \<le> length (rw_threads m)"
  by (simp add: reading_def count_le_length)

lemma writing_le: "writing m \<le> length (rw_threads m)"
  by (simp add: writing_def count_le_length)

lemma rw_inv_idle:
  assumes "rw_inv m" and "t < length (rw_threads m)"
    and "rw_threads m ! t \<noteq> Reading" and "rw_threads m ! t \<noteq> Writing"
    and "y \<noteq> Reading" and "y \<noteq> Writing"
  shows "rw_inv (m\<lparr>rw_threads := (rw_threads m)[t := y]\<rparr>)"
proof -
  have "reading (m\<lparr>rw_threads := (rw_threads m)[t := y]\<rparr>) = reading m"
    using reading_update [OF assms(2), of y] assms(3,5) by simp
  moreover have "writing (m\<lparr>rw_threads := (rw_threads m)[t := y]\<rparr>) = writing m"
    using writing_update [OF assms(2), of y] assms(4,6) by simp
  ultimately show ?thesis using assms(1) by (simp add: rw_inv_def)
qed

lemma rw_inv_read_lock:
  assumes "rw_inv m" and "t < length (rw_threads m)" and "length (rw_threads m) < 2 ^ 32"
    and "rw_threads m ! t \<noteq> Reading" and "rw_threads m ! t \<noteq> Writing"
  shows "rw_inv (read_lock t m)"
proof (cases "writers m > 0")
  case True
  then show ?thesis using assms by (simp add: read_lock_def rw_inv_idle)
next
  case False
  then have w0: "writing m = 0"
    using assms(1) by (simp add: rw_inv_def word32_pos)
  define m' where "m' = m\<lparr>readers := readers m + 1, rw_threads := (rw_threads m)[t := Reading]\<rparr>"
  have eq: "read_lock t m = m'"
    using False by (simp add: read_lock_def m'_def)
  have r: "reading m' = reading m + 1"
    using reading_update [OF assms(2), of Reading] assms(4) by (simp add: m'_def reading_def)
  have w: "writing m' = writing m"
    using writing_update [OF assms(2), of Reading] assms(5) by (simp add: m'_def writing_def)
  have "reading m' \<le> length (rw_threads m)"
    using reading_le [of m'] by (simp add: m'_def)
  with r have "reading m < length (rw_threads m)" by simp
  then have "unat (readers m) < length (rw_threads m)"
    using assms(1) by (simp add: rw_inv_def)
  then have "unat (readers m + 1) = unat (readers m) + 1"
    using assms(3) by (rule unat_succ32)
  then have "unat (readers m') = reading m'"
    using assms(1) r by (simp add: m'_def rw_inv_def)
  moreover have "unat (writers m') = writing m'"
    using assms(1) w by (simp add: m'_def rw_inv_def)
  ultimately have "rw_inv m'"
    using w w0 by (simp add: rw_inv_def)
  with eq show ?thesis by simp
qed

lemma rw_inv_write_lock:
  assumes "rw_inv m" and "t < length (rw_threads m)" and "length (rw_threads m) < 2 ^ 32"
    and "rw_threads m ! t \<noteq> Reading" and "rw_threads m ! t \<noteq> Writing"
  shows "rw_inv (write_lock t m)"
proof (cases "writers m > 0 \<or> readers m > 0")
  case True
  then show ?thesis using assms by (simp add: write_lock_def rw_inv_idle)
next
  case False
  then have w0: "writing m = 0" and r0: "reading m = 0"
    using assms(1) by (simp_all add: rw_inv_def word32_pos)
  from False have wz: "writers m = 0"
    by (simp add: word32_pos word32_zero)
  define m' where "m' = m\<lparr>writers := writers m + 1, rw_threads := (rw_threads m)[t := Writing]\<rparr>"
  have eq: "write_lock t m = m'"
    using False by (simp add: write_lock_def m'_def)
  have r: "reading m' = 0"
    using reading_update [OF assms(2), of Writing] assms(4) r0 by (simp add: m'_def reading_def)
  have w: "writing m' = 1"
    using writing_update [OF assms(2), of Writing] assms(5) w0 by (simp add: m'_def writing_def)
  have "unat (readers m') = reading m'"
    using assms(1) r r0 by (simp add: m'_def rw_inv_def)
  moreover have "unat (writers m') = writing m'"
    using wz w by (simp add: m'_def)
  ultimately have "rw_inv m'"
    using w r by (simp add: rw_inv_def)
  with eq show ?thesis by simp
qed

lemma rw_inv_notify_all: "rw_inv m \<Longrightarrow> rw_inv (rw_notify_all m)"
  by (simp add: rw_inv_def) (simp add: rw_notify_all_def)

lemma rw_inv_read_unlock:
  assumes "rw_inv m" and "t < length (rw_threads m)" and "rw_threads m ! t = Reading"
  shows "rw_inv (read_unlock t m)"
proof -
  have pos: "0 < reading m"
    unfolding reading_def using assms(2,3) by (rule count_list_nth_pos)
  then have w0: "writing m = 0"
    using assms(1) by (auto simp: rw_inv_def)
  define m' where "m' = m\<lparr>readers := readers m - 1, rw_threads := (rw_threads m)[t := Away]\<rparr>"
  have r: "reading m' + 1 = reading m"
    using reading_update [OF assms(2), of Away] assms(3) by (simp add: m'_def reading_def)
  have w: "writing m' = writing m"
    using writing_update [OF assms(2), of Away] assms(3) by (simp add: m'_def writing_def)
  have "0 < unat (readers m)"
    using pos assms(1) by (simp add: rw_inv_def)
  then have "unat (readers m - 1) = unat (readers m) - 1"
    by (rule unat_pred32)
  then have "unat (readers m') = reading m'"
    using assms(1) r by (simp add: m'_def rw_inv_def)
  moreover have "unat (writers m') = writing m'"
    using assms(1) w by (simp add: m'_def rw_inv_def)
  ultimately have inv': "rw_inv m'"
    using w w0 by (simp add: rw_inv_def)
  have "read_unlock t m = (if readers m' = 0 then rw_notify_all m' else m')"
    by (simp add: read_unlock_def m'_def Let_def)
  then show ?thesis using inv' by (simp add: rw_inv_notify_all)
qed

lemma rw_inv_write_unlock:
  assumes "rw_inv m" and "t < length (rw_threads m)" and "rw_threads m ! t = Writing"
  shows "rw_inv (write_unlock t m)"
proof -
  have pos: "0 < writing m"
    unfolding writing_def using assms(2,3) by (rule count_list_nth_pos)
  then have w1: "writing m = 1" and r0: "reading m = 0"
    using assms(1) by (auto simp: rw_inv_def)
  define m' where "m' = m\<lparr>writers := 0, rw_threads := (rw_threads m)[t := Away]\<rparr>"
  have r: "reading m' = 0"
    using reading_update [OF assms(2), of Away] assms(3) r0 by (simp add: m'_def reading_def)
  have w: "writing m' = 0"
    using writing_update [OF assms(2), of Away] assms(3) w1 by (simp add: m'_def writing_def)
  have "unat (readers m') = reading m'"
    using assms(1) r r0 by (simp add: m'_def rw_inv_def)
  moreover have "unat (writers m') = writing m'"
    using w by (simp add: m'_def)
  ultimately have "rw_inv m'"
    using w by (simp add: rw_inv_def)
  then show ?thesis
    by (simp add: write_unlock_def m'_def [symmetric] rw_inv_notify_all)
qed

lemma rw_inv_step:
  assumes "rw_inv m" and "length (rw_threads m) < 2 ^ 32"
  shows "rw_inv (rw_step a m)"
proof (cases a)
  case (RLock t)
  then show ?thesis using assms by (simp add: rw_inv_read_lock)
next
  case (WLock t)
  then show ?thesis using assms by (simp add: rw_inv_write_lock)
next
  case (RUnlock t)
  then show ?thesis using assms by (simp add: rw_inv_read_unlock)
next
  case (WUnlock t)
  then show ?thesis using assms by (simp add: rw_inv_write_unlock)
next
  case (Retry t)
  then show ?thesis using assms
    by (simp add: rw_inv_read_lock rw_inv_write_lock split: rw_thread.splits rw_mode.splits)
next
  case (Wake t)
  then show ?thesis using assms by (simp add: rw_inv_idle split: rw_thread.splits)
qed

lemma rw_inv_run:
  "rw_inv m \<Longrightarrow> length (rw_threads m) < 2 ^ 32 \<Longrightarrow> rw_inv (rw_run sched m)"
proof (induction sched arbitrary: m)
  case Nil
  then show ?case by simp
next
  case (Cons a sched)
  then show ?case by (simp add: rw_inv_step)
qed

lemma rw_inv_init: "rw_inv (ReadWriteMutex_init n)"
  by (simp add: rw_inv_def ReadWriteMutex_init_def reading_def writing_def)

text \<open>
  C4. With fewer than \<open>2 ^ 32\<close> threads (the counters are 32 bits wide and each thread
  holds the lock at most once), in every state \<open>m\<close> that a schedule of \<^verbatim>\<open>read_lock\<close>,
  \<^verbatim>\<open>read_unlock\<close>, \<^verbatim>\<open>write_lock\<close> and \<^verbatim>\<open>write_unlock\<close> operations reaches from a fresh
  lock: \<^verbatim>\<open>_readers\<close> is the number of threads that hold the lock for reading and
  \<^verbatim>\<open>_writers\<close> the number that hold it for writing; while no thread holds the lock both
  counts are 0; while a thread holds it for writing, \<^verbatim>\<open>_writers\<close> is 1, \<^verbatim>\<open>_readers\<close> is 0,
  that thread is the only writer and no thread holds it for reading; while a thread
  holds it for reading, \<^verbatim>\<open>_readers\<close> is at least 1, \<^verbatim>\<open>_writers\<close> is 0 and no thread holds
  it for writing.
\<close>

theorem ReadWriteMutex_invariant:
  assumes "n < 2 ^ 32" and "m = rw_run sched (ReadWriteMutex_init n)"
  shows "unat (readers m) = reading m \<and> unat (writers m) = writing m
       \<and> (Reading \<notin> set (rw_threads m) \<and> Writing \<notin> set (rw_threads m)
            \<longrightarrow> writers m = 0 \<and> readers m = 0)
       \<and> (Writing \<in> set (rw_threads m)
            \<longrightarrow> writers m = 1 \<and> readers m = 0 \<and> writing m = 1 \<and> Reading \<notin> set (rw_threads m))
       \<and> (Reading \<in> set (rw_threads m)
            \<longrightarrow> 1 \<le> readers m \<and> writers m = 0 \<and> Writing \<notin> set (rw_threads m))"
proof -
  have len: "length (rw_threads (ReadWriteMutex_init n)) < 2 ^ 32"
    using assms(1) by (simp add: ReadWriteMutex_init_def)
  have inv: "rw_inv m"
    unfolding assms(2) using rw_inv_init len by (rule rw_inv_run)
  then have ur: "unat (readers m) = reading m" and uw: "unat (writers m) = writing m"
    and w1: "writing m \<le> 1" and ex: "writing m = 1 \<longrightarrow> reading m = 0"
    by (simp_all add: rw_inv_def)
  have rs: "Reading \<in> set (rw_threads m) \<longleftrightarrow> 0 < reading m"
    using count_list_0_iff [of "rw_threads m" Reading] by (auto simp: reading_def)
  have ws: "Writing \<in> set (rw_threads m) \<longleftrightarrow> 0 < writing m"
    using count_list_0_iff [of "rw_threads m" Writing] by (auto simp: writing_def)
  have a: "Reading \<notin> set (rw_threads m) \<and> Writing \<notin> set (rw_threads m)
            \<longrightarrow> writers m = 0 \<and> readers m = 0"
    using ur uw by (simp add: rs ws word32_zero)
  have b: "Writing \<in> set (rw_threads m)
            \<longrightarrow> writers m = 1 \<and> readers m = 0 \<and> writing m = 1 \<and> Reading \<notin> set (rw_threads m)"
  proof
    assume "Writing \<in> set (rw_threads m)"
    then have "writing m = 1" using w1 by (simp add: ws)
    moreover from this have "reading m = 0" using ex by simp
    moreover have "unat (writers m) = 1" using uw \<open>writing m = 1\<close> by simp
    then have "writers m = 1" by (simp add: word_unat_eq_iff)
    ultimately show "writers m = 1 \<and> readers m = 0 \<and> writing m = 1
        \<and> Reading \<notin> set (rw_threads m)"
      using ur by (simp add: rs word32_zero)
  qed
  have c: "Reading \<in> set (rw_threads m)
            \<longrightarrow> 1 \<le> readers m \<and> writers m = 0 \<and> Writing \<notin> set (rw_threads m)"
  proof
    assume "Reading \<in> set (rw_threads m)"
    then have r: "0 < reading m" by (simp add: rs)
    then have "writing m \<noteq> 1" using ex by auto
    then have w0: "writing m = 0" using w1 by simp
    have "unat (readers m) \<noteq> 0" using r ur by simp
    then have "readers m \<noteq> 0" by (simp add: word32_zero)
    then have "1 \<le> readers m" by (simp add: word_le_nat_alt word32_zero Suc_le_eq)
    then show "1 \<le> readers m \<and> writers m = 0 \<and> Writing \<notin> set (rw_threads m)"
      using w0 uw by (simp add: ws word32_zero)
  qed
  from ur uw a b c show ?thesis by blast
qed

lemmas rw_eval = ReadWriteMutex_init_def read_lock_def write_lock_def read_unlock_def
  write_unlock_def rw_notify_all_def

theorem ReadWriteMutex_invariant_witness:
  "(3::nat) < 2 ^ 32
   \<and> rw_threads (rw_run [RLock 0, RLock 1, WLock 2] (ReadWriteMutex_init 3))
       = [Reading, Reading, Pending Exclusive]
   \<and> unat (readers (rw_run [RLock 0, RLock 1, WLock 2] (ReadWriteMutex_init 3))) = 2
   \<and> 1 \<le> readers (rw_run [RLock 0, RLock 1, WLock 2] (ReadWriteMutex_init 3))
   \<and> writers (rw_run [RLock 0, RLock 1, WLock 2] (ReadWriteMutex_init 3)) = 0
   \<and> rw_threads (rw_run [RLock 0, RLock 1, WLock 2, RUnlock 0, RUnlock 1, Retry 2]
        (ReadWriteMutex_init 3)) = [Away, Away, Writing]
   \<and> writers (rw_run [RLock 0, RLock 1, WLock 2, RUnlock 0, RUnlock 1, Retry 2]
        (ReadWriteMutex_init 3)) = 1
   \<and> readers (rw_run [RLock 0, RLock 1, WLock 2, RUnlock 0, RUnlock 1, Retry 2]
        (ReadWriteMutex_init 3)) = 0
   \<and> rw_threads (rw_run [RLock 0, WLock 1, RUnlock 0, Retry 1, WUnlock 1] (ReadWriteMutex_init 3))
       = [Away, Away, Away]
   \<and> writers (rw_run [RLock 0, WLock 1, RUnlock 0, Retry 1, WUnlock 1] (ReadWriteMutex_init 3)) = 0
   \<and> readers (rw_run [RLock 0, WLock 1, RUnlock 0, Retry 1, WUnlock 1] (ReadWriteMutex_init 3)) = 0"
proof -
  have n: "(3::nat) < 2 ^ 32" by simp
  have t1: "rw_threads (rw_run [RLock 0, RLock 1, WLock 2] (ReadWriteMutex_init 3))
       = [Reading, Reading, Pending Exclusive]"
    by (simp add: rw_eval numeral_3_eq_3)
  have t2: "rw_threads (rw_run [RLock 0, RLock 1, WLock 2, RUnlock 0, RUnlock 1, Retry 2]
        (ReadWriteMutex_init 3)) = [Away, Away, Writing]"
    by (simp add: rw_eval numeral_3_eq_3)
  have t3: "rw_threads (rw_run [RLock 0, WLock 1, RUnlock 0, Retry 1, WUnlock 1]
        (ReadWriteMutex_init 3)) = [Away, Away, Away]"
    by (simp add: rw_eval numeral_3_eq_3)
  have r1: "reading (rw_run [RLock 0, RLock 1, WLock 2] (ReadWriteMutex_init 3)) = 2"
    unfolding reading_def t1 by simp
  have i1: "Reading \<in> set (rw_threads (rw_run [RLock 0, RLock 1, WLock 2] (ReadWriteMutex_init 3)))"
    unfolding t1 by simp
  have i2: "Writing \<in> set (rw_threads (rw_run [RLock 0, RLock 1, WLock 2, RUnlock 0, RUnlock 1,
        Retry 2] (ReadWriteMutex_init 3)))"
    unfolding t2 by simp
  have i3: "Reading \<notin> set (rw_threads (rw_run [RLock 0, WLock 1, RUnlock 0, Retry 1, WUnlock 1]
        (ReadWriteMutex_init 3)))
      \<and> Writing \<notin> set (rw_threads (rw_run [RLock 0, WLock 1, RUnlock 0, Retry 1, WUnlock 1]
        (ReadWriteMutex_init 3)))"
    unfolding t3 by simp
  have c1: "unat (readers (rw_run [RLock 0, RLock 1, WLock 2] (ReadWriteMutex_init 3))) = 2
      \<and> 1 \<le> readers (rw_run [RLock 0, RLock 1, WLock 2] (ReadWriteMutex_init 3))
      \<and> writers (rw_run [RLock 0, RLock 1, WLock 2] (ReadWriteMutex_init 3)) = 0"
    using ReadWriteMutex_invariant [OF n refl, of "[RLock 0, RLock 1, WLock 2]"] r1 i1
    by metis
  have c2: "writers (rw_run [RLock 0, RLock 1, WLock 2, RUnlock 0, RUnlock 1, Retry 2]
        (ReadWriteMutex_init 3)) = 1
      \<and> readers (rw_run [RLock 0, RLock 1, WLock 2, RUnlock 0, RUnlock 1, Retry 2]
        (ReadWriteMutex_init 3)) = 0"
    using ReadWriteMutex_invariant [OF n refl,
        of "[RLock 0, RLock 1, WLock 2, RUnlock 0, RUnlock 1, Retry 2]"] i2
    by blast
  have c3: "writers (rw_run [RLock 0, WLock 1, RUnlock 0, Retry 1, WUnlock 1]
        (ReadWriteMutex_init 3)) = 0
      \<and> readers (rw_run [RLock 0, WLock 1, RUnlock 0, Retry 1, WUnlock 1]
        (ReadWriteMutex_init 3)) = 0"
    using ReadWriteMutex_invariant [OF n refl, of "[RLock 0, WLock 1, RUnlock 0, Retry 1, WUnlock 1]"]
      i3
    by blast
  from n t1 t2 t3 c1 c2 c3 show ?thesis by blast
qed

section \<open>ThreadPool\<close>

text \<open>
  \<^verbatim>\<open>
  void ThreadPool::run(osg::Operation* op)       void ThreadPool::stopThreads()
  {                                              {
      if (op)                                        _done = true;
      {                                              _block.notify_all();
          Threading::ScopedMutexLock lock(_queueMutex);
          _queue.push(op);                           for(unsigned i=0; i<_numThreads; ++i)
          _block.notify_all();                           if (_threads[i].joinable())
      }                                                      _threads[i].join();
  }
                                                     _threads.clear();
  // each worker thread:                             {
  while(!_done)                                          Threading::ScopedMutexLock lock(_queueMutex);
  {                                                      _queue.swap(Queue());
      osg::ref_ptr<osg::Operation> op;               }
      {                                          }
          std::unique_lock<Mutex> lock(_queueMutex);
          _block.wait(lock, [this] { return !_queue.empty() || _done; });
          if (!_queue.empty() && !_done)
          {
              op = _queue.front();
              _queue.pop();
          }
      }
      if (op.valid())
      {
          (*op.get())(nullptr);
          if (op->getKeep())
          {
              Threading::ScopedMutexLock lock(_queueMutex);
              _queue.push(op);
          }
          op = nullptr;
      }
  }
  \<close>
  An operation is named by a number (its address). What an operation does when it is
  called is outside the pool; the pool reads only \<^verbatim>\<open>getKeep()\<close> after the call, and the
  step that calls an operation takes the value of that flag as a parameter.

  \<^verbatim>\<open>_block.wait(lock, pred)\<close> is \<^verbatim>\<open>while (!pred()) _block.wait(lock)\<close>: the worker tests
  the predicate holding \<^verbatim>\<open>_queueMutex\<close>, and releases the mutex only by blocking.
  \<^verbatim>\<open>stopThreads\<close> writes \<^verbatim>\<open>_done\<close> and broadcasts without the mutex, so these two steps
  can fall between a worker's test and its block; the position \<open>Parking\<close> of a worker is
  that window. Every step that takes \<^verbatim>\<open>_queueMutex\<close> waits while a worker is there.
\<close>

type_synonym operation = nat

datatype worker =
    AtLoop
  | AtWait
  | Parking
  | Asleep
  | Awake
  | Has operation
  | Ran operation bool
  | Exited

datatype stop_pc = Running | Signalled | Joining | Stopped

text \<open>
  The member variables \<^verbatim>\<open>_queue\<close> (front first), \<^verbatim>\<open>_done\<close> and \<^verbatim>\<open>_threads\<close> (with the
  position of each worker); where the thread that runs the destructor is; and three
  logs kept to state the claims, which no step reads: the operations passed to
  \<^verbatim>\<open>run\<close>, the operations dequeued, and the operations called, each with the value of
  its keep flag after the call.
\<close>

record ThreadPool =
  queue :: "operation list"
  tp_done :: bool
  threads :: "worker list"
  stopping :: stop_pc
  submitted :: "operation list"
  dequeued :: "operation list"
  executed :: "(operation \<times> bool) list"

definition ThreadPool_init :: "nat \<Rightarrow> ThreadPool" where
  "ThreadPool_init numThreads =
     \<lparr>queue = [], tp_done = False, threads = replicate numThreads AtLoop, stopping = Running,
      submitted = [], dequeued = [], executed = []\<rparr>"

definition mutex_free :: "ThreadPool \<Rightarrow> bool" where
  "mutex_free p = (Parking \<notin> set (threads p))"

fun rouse :: "worker \<Rightarrow> worker" where
  "rouse Asleep = Awake"
| "rouse w = w"

definition block_notify_all :: "ThreadPool \<Rightarrow> ThreadPool" where
  "block_notify_all p = p\<lparr>threads := map rouse (threads p)\<rparr>"

definition run :: "operation option \<Rightarrow> ThreadPool \<Rightarrow> ThreadPool" where
  "run op p =
     (case op of
        None \<Rightarrow> p
      | Some x \<Rightarrow> block_notify_all (p\<lparr>queue := queue p @ [x], submitted := submitted p @ [x]\<rparr>))"

text \<open>The worker's critical section: the predicate of the wait, then either the block,
  or the test that follows the wait and the dequeue.\<close>

definition take :: "nat \<Rightarrow> ThreadPool \<Rightarrow> ThreadPool" where
  "take w p =
     (if queue p \<noteq> [] \<or> tp_done p
      then (if queue p \<noteq> [] \<and> \<not> tp_done p
            then p\<lparr>queue := tl (queue p), threads := (threads p)[w := Has (hd (queue p))],
                   dequeued := dequeued p @ [hd (queue p)]\<rparr>
            else p\<lparr>threads := (threads p)[w := AtLoop]\<rparr>)
      else p\<lparr>threads := (threads p)[w := Parking]\<rparr>)"

definition requeue :: "nat \<Rightarrow> operation \<Rightarrow> bool \<Rightarrow> ThreadPool \<Rightarrow> ThreadPool" where
  "requeue w x keep p =
     (if keep then p\<lparr>queue := queue p @ [x], threads := (threads p)[w := AtLoop]\<rparr>
      else p\<lparr>threads := (threads p)[w := AtLoop]\<rparr>)"

text \<open>
  The steps. Of a worker \<open>w\<close>: \<open>Test w\<close> is the test of \<^verbatim>\<open>while(!_done)\<close>; \<open>Take w\<close> the
  critical section above; \<open>Park w\<close> the block that follows a false predicate; \<open>Exec w keep\<close>
  the call of the operation, after which \<^verbatim>\<open>getKeep()\<close> gives \<open>keep\<close>; \<open>Requeue w\<close> the
  \<^verbatim>\<open>if (op->getKeep())\<close> that follows. Of the destructor: \<open>SetDone\<close> is \<^verbatim>\<open>_done = true\<close>,
  \<open>NotifyAll\<close> the broadcast, and \<open>JoinClear\<close> the rest of \<^verbatim>\<open>stopThreads\<close>, which goes on
  only when every worker thread has ended: the joins, \<^verbatim>\<open>_threads.clear()\<close> and the swap of
  the queue with an empty one. \<open>Run op\<close> is a call of \<^verbatim>\<open>run\<close> by any thread (\<open>None\<close> is the
  null pointer), and \<open>Rouse w\<close> a spurious wake-up of a sleeping worker.
\<close>

datatype tp_action =
    Run "operation option"
  | Test nat
  | Take nat
  | Park nat
  | Exec nat bool
  | Requeue nat
  | Rouse nat
  | SetDone
  | NotifyAll
  | JoinClear

fun tp_step :: "tp_action \<Rightarrow> ThreadPool \<Rightarrow> ThreadPool" where
  "tp_step (Run op) p = (if mutex_free p then run op p else p)"
| "tp_step (Test w) p =
     (if w < length (threads p) \<and> threads p ! w = AtLoop
      then p\<lparr>threads := (threads p)[w := (if tp_done p then Exited else AtWait)]\<rparr>
      else p)"
| "tp_step (Take w) p =
     (if w < length (threads p) \<and> (threads p ! w = AtWait \<or> threads p ! w = Awake) \<and> mutex_free p
      then take w p else p)"
| "tp_step (Park w) p =
     (if w < length (threads p) \<and> threads p ! w = Parking
      then p\<lparr>threads := (threads p)[w := Asleep]\<rparr> else p)"
| "tp_step (Exec w keep) p =
     (if w < length (threads p)
      then (case threads p ! w of
              Has x \<Rightarrow> p\<lparr>threads := (threads p)[w := Ran x keep],
                          executed := executed p @ [(x, keep)]\<rparr>
            | _ \<Rightarrow> p)
      else p)"
| "tp_step (Requeue w) p =
     (if w < length (threads p)
      then (case threads p ! w of
              Ran x keep \<Rightarrow> (if keep \<longrightarrow> mutex_free p then requeue w x keep p else p)
            | _ \<Rightarrow> p)
      else p)"
| "tp_step (Rouse w) p =
     (if w < length (threads p) \<and> threads p ! w = Asleep
      then p\<lparr>threads := (threads p)[w := Awake]\<rparr> else p)"
| "tp_step SetDone p =
     (if stopping p = Running then p\<lparr>tp_done := True, stopping := Signalled\<rparr> else p)"
| "tp_step NotifyAll p =
     (if stopping p = Signalled then block_notify_all (p\<lparr>stopping := Joining\<rparr>) else p)"
| "tp_step JoinClear p =
     (if stopping p = Joining \<and> (\<forall>w \<in> set (threads p). w = Exited)
      then p\<lparr>threads := [], queue := [], stopping := Stopped\<rparr> else p)"

text \<open>Once the destructor has returned the pool no longer exists: no step applies.\<close>

definition step :: "tp_action \<Rightarrow> ThreadPool \<Rightarrow> ThreadPool" where
  "step a p = (if stopping p = Stopped then p else tp_step a p)"

definition tp_run :: "tp_action list \<Rightarrow> ThreadPool \<Rightarrow> ThreadPool" where
  "tp_run sched p = fold step sched p"

text \<open>The steps of the pool's own threads, the workers and the destructor: every step
  but a call of \<^verbatim>\<open>run\<close> from outside and a spurious wake-up.\<close>

fun own_step :: "tp_action \<Rightarrow> bool" where
  "own_step (Run op) = False"
| "own_step (Rouse w) = False"
| "own_step a = True"

subsection \<open>Where the operations are\<close>

text \<open>The operations that the workers have dequeued and not yet called; those they have
  called and are about to put back; those called so far; and those that were called
  and not put back, because the keep flag was false after the call.\<close>

fun holds :: "worker \<Rightarrow> operation multiset" where
  "holds (Has x) = {#x#}"
| "holds w = {#}"

fun returns :: "worker \<Rightarrow> operation multiset" where
  "returns (Ran x keep) = (if keep then {#x#} else {#})"
| "returns w = {#}"

definition in_hand :: "worker list \<Rightarrow> operation multiset" where
  "in_hand ws = sum_list (map holds ws)"

definition to_requeue :: "worker list \<Rightarrow> operation multiset" where
  "to_requeue ws = sum_list (map returns ws)"

definition called :: "(operation \<times> bool) list \<Rightarrow> operation multiset" where
  "called es = mset (map fst es)"

definition dropped :: "(operation \<times> bool) list \<Rightarrow> operation multiset" where
  "dropped es = mset (map fst (filter (\<lambda>e. \<not> snd e) es))"

definition tp_inv :: "ThreadPool \<Rightarrow> bool" where
  "tp_inv p = (mset (dequeued p) = in_hand (threads p) + called (executed p)
             \<and> (stopping p \<noteq> Stopped \<longrightarrow>
                  mset (submitted p) = mset (queue p) + in_hand (threads p)
                     + to_requeue (threads p) + dropped (executed p))
             \<and> (stopping p = Stopped \<longrightarrow> threads p = [] \<and> queue p = [])
             \<and> (stopping p = Running \<longleftrightarrow> \<not> tp_done p))"

text \<open>A worker that is running: not blocked, not about to block, not ended.\<close>

fun awake :: "worker \<Rightarrow> bool" where
  "awake Parking = False"
| "awake Asleep = False"
| "awake Exited = False"
| "awake w = True"

text \<open>No worker ends before \<^verbatim>\<open>_done\<close> is set; a worker about to block has found the queue
  empty and holds the mutex; and while \<^verbatim>\<open>_done\<close> is false a queue that is not empty has a
  running worker (or the pool has no worker at all).\<close>

definition tp_live :: "ThreadPool \<Rightarrow> bool" where
  "tp_live p = ((\<not> tp_done p \<longrightarrow> Exited \<notin> set (threads p))
              \<and> (Parking \<in> set (threads p) \<longrightarrow> queue p = [])
              \<and> (\<not> tp_done p \<and> queue p \<noteq> [] \<and> threads p \<noteq> []
                   \<longrightarrow> (\<exists>u < length (threads p). awake (threads p ! u))))"

text \<open>One pass of worker \<open>w\<close> over the operations \<open>xs\<close> at the front of the queue, when
  the keep flag of operation \<open>x\<close> after a call is \<open>kp x\<close>: for each of them the worker
  tests \<^verbatim>\<open>_done\<close>, dequeues, calls, and puts the operation back or not.\<close>

fun serve :: "nat \<Rightarrow> (operation \<Rightarrow> bool) \<Rightarrow> operation list \<Rightarrow> tp_action list" where
  "serve w kp [] = []"
| "serve w kp (x # xs) = [Test w, Take w, Exec w (kp x), Requeue w] @ serve w kp xs"

lemma tp_run_Nil [simp]: "tp_run [] p = p"
  by (simp add: tp_run_def)

lemma tp_run_Cons [simp]: "tp_run (a # sched) p = tp_run sched (step a p)"
  by (simp add: tp_run_def)

lemma tp_run_append [simp]: "tp_run (xs @ ys) p = tp_run ys (tp_run xs p)"
  by (simp add: tp_run_def)

lemma sum_list_update:
  fixes f :: "'a \<Rightarrow> 'b multiset"
  shows "i < length xs \<Longrightarrow>
    sum_list (map f (xs[i := y])) + f (xs ! i) = sum_list (map f xs) + f y"
proof (induction xs arbitrary: i)
  case Nil
  then show ?case by simp
next
  case (Cons x xs)
  show ?case
  proof (cases i)
    case 0
    then show ?thesis by simp
  next
    case (Suc j)
    with Cons.prems have "j < length xs" by simp
    from Cons.IH [OF this] Suc show ?thesis by (simp add: ac_simps)
  qed
qed

lemma in_hand_update:
  "w < length ws \<Longrightarrow> in_hand (ws[w := y]) + holds (ws ! w) = in_hand ws + holds y"
  by (simp add: in_hand_def sum_list_update)

lemma to_requeue_update:
  "w < length ws \<Longrightarrow> to_requeue (ws[w := y]) + returns (ws ! w) = to_requeue ws + returns y"
  by (simp add: to_requeue_def sum_list_update)

lemma in_hand_idle:
  "w < length ws \<Longrightarrow> holds (ws ! w) = {#} \<Longrightarrow> holds y = {#} \<Longrightarrow> in_hand (ws[w := y]) = in_hand ws"
  using in_hand_update [of w ws y] by simp

lemma to_requeue_idle:
  "w < length ws \<Longrightarrow> returns (ws ! w) = {#} \<Longrightarrow> returns y = {#}
   \<Longrightarrow> to_requeue (ws[w := y]) = to_requeue ws"
  using to_requeue_update [of w ws y] by simp

lemma holds_rouse [simp]: "holds (rouse w) = holds w"
  by (cases w) simp_all

lemma returns_rouse [simp]: "returns (rouse w) = returns w"
  by (cases w) simp_all

lemma in_hand_rouse [simp]: "in_hand (map rouse ws) = in_hand ws"
  by (simp add: in_hand_def comp_def)

lemma to_requeue_rouse [simp]: "to_requeue (map rouse ws) = to_requeue ws"
  by (simp add: to_requeue_def comp_def)

lemma in_hand_Exited: "\<forall>w \<in> set ws. w = Exited \<Longrightarrow> in_hand ws = {#}"
  by (induction ws) (simp_all add: in_hand_def)

lemma called_snoc [simp]: "called (es @ [(x, b)]) = called es + {#x#}"
  by (simp add: called_def)

lemma dropped_snoc [simp]: "dropped (es @ [(x, b)]) = dropped es + (if b then {#} else {#x#})"
  by (simp add: dropped_def)

lemma in_hand_Nil [simp]: "in_hand [] = {#}"
  by (simp add: in_hand_def)

lemma to_requeue_Nil [simp]: "to_requeue [] = {#}"
  by (simp add: to_requeue_def)

lemma in_hand_replicate [simp]: "in_hand (replicate n AtLoop) = {#}"
  by (induction n) (simp_all add: in_hand_def)

lemma to_requeue_replicate [simp]: "to_requeue (replicate n AtLoop) = {#}"
  by (induction n) (simp_all add: to_requeue_def)

lemma tp_inv_Run:
  assumes "tp_inv p" and "stopping p \<noteq> Stopped"
  shows "tp_inv (run op p)"
  using assms by (cases op) (auto simp: tp_inv_def run_def block_notify_all_def)

lemma tp_inv_idle:
  assumes "tp_inv p" and "w < length (threads p)"
    and "holds (threads p ! w) = {#}" and "returns (threads p ! w) = {#}"
    and "holds y = {#}" and "returns y = {#}"
  shows "tp_inv (p\<lparr>threads := (threads p)[w := y]\<rparr>)"
proof -
  have "in_hand ((threads p)[w := y]) = in_hand (threads p)"
    using assms(2,3,5) by (rule in_hand_idle)
  moreover have "to_requeue ((threads p)[w := y]) = to_requeue (threads p)"
    using assms(2,4,6) by (rule to_requeue_idle)
  ultimately show ?thesis using assms(1,2) by (auto simp: tp_inv_def)
qed

lemma tp_inv_take:
  assumes "tp_inv p" and "w < length (threads p)"
    and "threads p ! w = AtWait \<or> threads p ! w = Awake"
  shows "tp_inv (take w p)"
proof (cases "queue p \<noteq> [] \<and> \<not> tp_done p")
  case True
  then obtain x q where q: "queue p = x # q" by (cases "queue p") auto
  have h: "holds (threads p ! w) = {#}" and r: "returns (threads p ! w) = {#}"
    using assms(3) by auto
  have ih: "in_hand ((threads p)[w := Has x]) = in_hand (threads p) + {#x#}"
    using in_hand_update [OF assms(2), of "Has x"] h by simp
  have tr: "to_requeue ((threads p)[w := Has x]) = to_requeue (threads p)"
    using assms(2) r by (intro to_requeue_idle) simp_all
  have "take w p = p\<lparr>queue := q, threads := (threads p)[w := Has x],
      dequeued := dequeued p @ [x]\<rparr>"
    using True q by (simp add: take_def)
  then show ?thesis using assms(1,2) q ih tr by (auto simp: tp_inv_def)
next
  case False
  have h: "holds (threads p ! w) = {#}" and r: "returns (threads p ! w) = {#}"
    using assms(3) by auto
  have "take w p = p\<lparr>threads := (threads p)[w := (if queue p \<noteq> [] \<or> tp_done p then AtLoop
      else Parking)]\<rparr>"
    using False by (auto simp: take_def)
  moreover have "tp_inv (p\<lparr>threads := (threads p)[w := (if queue p \<noteq> [] \<or> tp_done p then AtLoop
      else Parking)]\<rparr>)"
    using assms(1,2) h r by (intro tp_inv_idle) simp_all
  ultimately show ?thesis by simp
qed

lemma tp_inv_exec:
  assumes "tp_inv p" and "w < length (threads p)" and "threads p ! w = Has x"
  shows "tp_inv (p\<lparr>threads := (threads p)[w := Ran x keep],
      executed := executed p @ [(x, keep)]\<rparr>)"
proof -
  have ih: "in_hand ((threads p)[w := Ran x keep]) + {#x#} = in_hand (threads p)"
    using in_hand_update [OF assms(2), of "Ran x keep"] assms(3) by simp
  have tr: "to_requeue ((threads p)[w := Ran x keep])
      = to_requeue (threads p) + (if keep then {#x#} else {#})"
    using to_requeue_update [OF assms(2), of "Ran x keep"] assms(3) by simp
  have i1: "mset (dequeued p) = in_hand (threads p) + called (executed p)"
    and i2: "stopping p \<noteq> Stopped \<longrightarrow>
      mset (submitted p) = mset (queue p) + in_hand (threads p)
         + to_requeue (threads p) + dropped (executed p)"
    and i3: "stopping p = Stopped \<longrightarrow> threads p = [] \<and> queue p = []"
    and i4: "stopping p = Running \<longleftrightarrow> \<not> tp_done p"
    using assms(1) by (simp_all add: tp_inv_def)
  have ns: "stopping p \<noteq> Stopped"
    using i3 assms(2) by auto
  have j1: "mset (dequeued p) = in_hand ((threads p)[w := Ran x keep])
      + called (executed p @ [(x, keep)])"
    using i1 ih [symmetric] by simp
  have j2: "mset (submitted p) = mset (queue p) + in_hand ((threads p)[w := Ran x keep])
      + to_requeue ((threads p)[w := Ran x keep]) + dropped (executed p @ [(x, keep)])"
    using i2 ns ih [symmetric] tr by simp
  show ?thesis using j1 j2 ns i4 by (simp add: tp_inv_def)
qed

lemma tp_inv_requeue:
  assumes "tp_inv p" and "w < length (threads p)" and "threads p ! w = Ran x keep"
  shows "tp_inv (requeue w x keep p)"
proof -
  have ih: "in_hand ((threads p)[w := AtLoop]) = in_hand (threads p)"
    using assms(2,3) by (intro in_hand_idle) simp_all
  have tr: "to_requeue ((threads p)[w := AtLoop]) + (if keep then {#x#} else {#})
      = to_requeue (threads p)"
    using to_requeue_update [OF assms(2), of AtLoop] assms(3) by simp
  have i3: "stopping p = Stopped \<longrightarrow> threads p = [] \<and> queue p = []"
    using assms(1) by (simp add: tp_inv_def)
  have ns: "stopping p \<noteq> Stopped"
    using i3 assms(2) by auto
  show ?thesis
    using assms(1) ns ih tr [symmetric] by (auto simp: tp_inv_def requeue_def)
qed

lemma tp_inv_tp_step:
  assumes "tp_inv p" and "stopping p \<noteq> Stopped"
  shows "tp_inv (tp_step a p)"
proof (cases a)
  case (Run op)
  then show ?thesis using assms by (simp add: tp_inv_Run)
next
  case (Test w)
  then show ?thesis using assms by (simp add: tp_inv_idle)
next
  case (Take w)
  then show ?thesis using assms by (auto simp: tp_inv_take)
next
  case (Park w)
  then show ?thesis using assms by (simp add: tp_inv_idle)
next
  case (Exec w keep)
  then show ?thesis using assms by (simp add: tp_inv_exec split: worker.splits)
next
  case (Requeue w)
  then show ?thesis using assms by (simp add: tp_inv_requeue split: worker.splits)
next
  case (Rouse w)
  then show ?thesis using assms by (simp add: tp_inv_idle)
next
  case SetDone
  then show ?thesis using assms by (auto simp: tp_inv_def)
next
  case NotifyAll
  then show ?thesis using assms by (auto simp: tp_inv_def block_notify_all_def)
next
  case JoinClear
  then show ?thesis using assms by (auto simp: tp_inv_def in_hand_Exited)
qed

lemma tp_inv_step: "tp_inv p \<Longrightarrow> tp_inv (step a p)"
  by (simp add: step_def tp_inv_tp_step)

lemma tp_inv_run: "tp_inv p \<Longrightarrow> tp_inv (tp_run sched p)"
  by (induction sched arbitrary: p) (simp_all add: tp_inv_step)

lemma tp_inv_init: "tp_inv (ThreadPool_init n)"
  by (simp add: tp_inv_def ThreadPool_init_def called_def dropped_def)

lemma mutex_free_update:
  "mutex_free p \<Longrightarrow> y \<noteq> Parking \<Longrightarrow> mutex_free (p\<lparr>threads := (threads p)[w := y]\<rparr>)"
  by (simp add: mutex_free_def not_in_set_update)

lemma serve_round:
  assumes "w < length (threads p)" and "threads p ! w = AtLoop" and "mutex_free p"
    and "\<not> tp_done p" and "stopping p \<noteq> Stopped" and "queue p = x # q"
  shows "tp_run [Test w, Take w, Exec w b, Requeue w] p
     = p\<lparr>queue := q @ (if b then [x] else []), dequeued := dequeued p @ [x],
         executed := executed p @ [(x, b)]\<rparr>"
proof -
  define p1 where "p1 = p\<lparr>threads := (threads p)[w := AtWait]\<rparr>"
  have s1: "step (Test w) p = p1"
    using assms by (simp add: step_def p1_def)
  have f1: "mutex_free p1"
    unfolding p1_def using assms(3) by (rule mutex_free_update) simp
  define p2 where "p2 = p\<lparr>queue := q, threads := (threads p)[w := Has x],
      dequeued := dequeued p @ [x]\<rparr>"
  have s2: "step (Take w) p1 = p2"
    using assms f1 by (simp add: step_def take_def) (simp add: p1_def p2_def)
  define p3 where "p3 = p\<lparr>queue := q, threads := (threads p)[w := Ran x b],
      dequeued := dequeued p @ [x], executed := executed p @ [(x, b)]\<rparr>"
  have s3: "step (Exec w b) p2 = p3"
    using assms by (simp add: step_def p2_def p3_def)
  have f3: "mutex_free p3"
    using mutex_free_update [OF assms(3), of "Ran x b" w] by (simp add: mutex_free_def p3_def)
  have same: "(threads p)[w := AtLoop] = threads p"
    using assms(1,2) by (simp add: list_update_same_conv)
  have s4: "step (Requeue w) p3
     = p\<lparr>queue := q @ (if b then [x] else []), dequeued := dequeued p @ [x],
         executed := executed p @ [(x, b)]\<rparr>"
    using assms(1,5) f3 unfolding p3_def by (cases b) (simp_all add: step_def requeue_def same)
  show ?thesis
    by (simp only: tp_run_Cons tp_run_Nil s1 s2 s3 s4)
qed

lemma serve_pass:
  assumes "w < length (threads p)" and "threads p ! w = AtLoop" and "mutex_free p"
    and "\<not> tp_done p" and "stopping p \<noteq> Stopped" and "queue p = xs @ rest"
  shows "tp_run (serve w kp xs) p
     = p\<lparr>queue := rest @ filter kp xs, dequeued := dequeued p @ xs,
         executed := executed p @ map (\<lambda>x. (x, kp x)) xs\<rparr>"
  using assms
proof (induction xs arbitrary: p rest)
  case Nil
  then show ?case by simp
next
  case (Cons x xs)
  define p1 where "p1 = p\<lparr>queue := (xs @ rest) @ (if kp x then [x] else []),
      dequeued := dequeued p @ [x], executed := executed p @ [(x, kp x)]\<rparr>"
  have r: "tp_run [Test w, Take w, Exec w (kp x), Requeue w] p = p1"
    unfolding p1_def using Cons.prems(1-5) by (rule serve_round) (simp add: Cons.prems(6))
  have "tp_run (serve w kp xs) p1
     = p1\<lparr>queue := (rest @ (if kp x then [x] else [])) @ filter kp xs,
          dequeued := dequeued p1 @ xs,
          executed := executed p1 @ map (\<lambda>x. (x, kp x)) xs\<rparr>"
    using Cons.prems(1-5) by (intro Cons.IH) (simp_all add: p1_def mutex_free_def)
  then have "tp_run (serve w kp xs) p1
     = p\<lparr>queue := rest @ filter kp (x # xs), dequeued := dequeued p @ x # xs,
         executed := executed p @ map (\<lambda>x. (x, kp x)) (x # xs)\<rparr>"
    by (simp add: p1_def)
  then show ?case
    by (simp only: serve.simps tp_run_append r)
qed

lemma serve_passes:
  assumes "w < length (threads p)" and "threads p ! w = AtLoop" and "mutex_free p"
    and "\<not> tp_done p" and "stopping p \<noteq> Stopped" and "queue p = ys" and "\<forall>y \<in> set ys. kp y"
  shows "tp_run (concat (replicate k (serve w kp ys))) p
     = p\<lparr>dequeued := dequeued p @ concat (replicate k ys),
         executed := executed p @ concat (replicate k (map (\<lambda>x. (x, kp x)) ys))\<rparr>"
  using assms(1-6)
proof (induction k arbitrary: p)
  case 0
  then show ?case by simp
next
  case (Suc k)
  have f: "filter kp ys = ys"
    using assms(7) by (simp add: filter_id_conv)
  define p1 where "p1 = p\<lparr>dequeued := dequeued p @ ys,
      executed := executed p @ map (\<lambda>x. (x, kp x)) ys\<rparr>"
  have "tp_run (serve w kp ys) p
     = p\<lparr>queue := [] @ filter kp ys, dequeued := dequeued p @ ys,
         executed := executed p @ map (\<lambda>x. (x, kp x)) ys\<rparr>"
    using Suc.prems(1-5) by (rule serve_pass) (simp add: Suc.prems(6))
  then have r: "tp_run (serve w kp ys) p = p1"
    using Suc.prems(6) by (simp add: f p1_def)
  have "tp_run (concat (replicate k (serve w kp ys))) p1
     = p1\<lparr>dequeued := dequeued p1 @ concat (replicate k ys),
          executed := executed p1 @ concat (replicate k (map (\<lambda>x. (x, kp x)) ys))\<rparr>"
    using Suc.prems by (intro Suc.IH) (simp_all add: p1_def mutex_free_def)
  then have "tp_run (concat (replicate k (serve w kp ys))) p1
     = p\<lparr>dequeued := dequeued p @ concat (replicate (Suc k) ys),
         executed := executed p @ concat (replicate (Suc k) (map (\<lambda>x. (x, kp x)) ys))\<rparr>"
    by (simp add: p1_def)
  then show ?case
    by (simp only: replicate_Suc concat.simps tp_run_append r)
qed

lemma length_threads_tp_step:
  "stopping p \<noteq> Stopped \<Longrightarrow> stopping (tp_step a p) \<noteq> Stopped
   \<Longrightarrow> length (threads (tp_step a p)) = length (threads p)"
  by (cases a)
     (auto simp: run_def take_def requeue_def block_notify_all_def
        split: option.splits worker.splits if_splits)

lemma length_threads_step:
  "stopping (step a p) \<noteq> Stopped \<Longrightarrow> length (threads (step a p)) = length (threads p)"
  by (auto simp: step_def length_threads_tp_step)

lemma stopped_step: "stopping p = Stopped \<Longrightarrow> step a p = p"
  by (simp add: step_def)

lemma stopped_run: "stopping p = Stopped \<Longrightarrow> tp_run sched p = p"
  by (induction sched) (simp_all add: stopped_step)

lemma length_threads_run:
  "stopping (tp_run sched p) \<noteq> Stopped \<Longrightarrow> length (threads (tp_run sched p)) = length (threads p)"
proof (induction sched arbitrary: p)
  case Nil
  then show ?case by simp
next
  case (Cons a sched)
  have "stopping (step a p) \<noteq> Stopped"
  proof
    assume "stopping (step a p) = Stopped"
    then have "tp_run sched (step a p) = step a p" by (rule stopped_run)
    with Cons.prems \<open>stopping (step a p) = Stopped\<close> show False by simp
  qed
  then have "length (threads (step a p)) = length (threads p)"
    by (rule length_threads_step)
  moreover have "length (threads (tp_run sched (step a p))) = length (threads (step a p))"
    using Cons.prems by (intro Cons.IH) simp
  ultimately show ?case by simp
qed

lemma done_no_dequeue: "tp_done p \<Longrightarrow> dequeued (step a p) = dequeued p"
  by (cases a)
     (auto simp: step_def run_def take_def requeue_def block_notify_all_def
        split: option.splits worker.splits)

lemma done_step: "tp_done p \<Longrightarrow> tp_done (step a p)"
  by (cases a)
     (auto simp: step_def run_def take_def requeue_def block_notify_all_def
        split: option.splits worker.splits)

lemma awake_rouse: "w \<noteq> Parking \<Longrightarrow> w \<noteq> Exited \<Longrightarrow> awake (rouse w)"
  by (cases w) simp_all

lemma rouse_Exited [simp]: "(rouse v = Exited) = (v = Exited)" "(Exited = rouse v) = (v = Exited)"
  by (cases v; simp)+

lemma rouse_Parking [simp]: "(rouse v = Parking) = (v = Parking)" "(Parking = rouse v) = (v = Parking)"
  by (cases v; simp)+

lemma awake_rouse_mono: "awake v \<Longrightarrow> awake (rouse v)"
  by (cases v) simp_all

lemma tp_live_awake_update:
  assumes "tp_live p" and "w < length (threads p)" and "awake y"
    and "threads p ! w \<noteq> Parking"
  shows "tp_live (p\<lparr>threads := (threads p)[w := y]\<rparr>)"
proof -
  have y: "y \<noteq> Exited" "y \<noteq> Parking"
    using assms(3) by auto
  have a: "\<not> tp_done p \<longrightarrow> Exited \<notin> set ((threads p)[w := y])"
    using assms(1) y(1) by (simp add: tp_live_def not_in_set_update)
  have b: "Parking \<in> set ((threads p)[w := y]) \<longrightarrow> queue p = []"
  proof
    assume "Parking \<in> set ((threads p)[w := y])"
    then have "Parking \<in> insert y (set (threads p))"
      using set_update_subset_insert by fastforce
    then have "Parking \<in> set (threads p)" using y(2) by simp
    then show "queue p = []" using assms(1) by (simp add: tp_live_def)
  qed
  have c: "\<exists>u < length ((threads p)[w := y]). awake ((threads p)[w := y] ! u)"
    using assms(2,3) by (intro exI [of _ w]) simp
  from a b c show ?thesis by (simp add: tp_live_def)
qed

lemma tp_live_run:
  assumes "tp_live p" and "mutex_free p"
  shows "tp_live (run op p)"
proof (cases op)
  case None
  then show ?thesis using assms(1) by (simp add: run_def)
next
  case (Some x)
  have a: "\<not> tp_done p \<longrightarrow> Exited \<notin> set (map rouse (threads p))"
  proof
    assume "\<not> tp_done p"
    then have "Exited \<notin> set (threads p)" using assms(1) by (simp add: tp_live_def)
    then show "Exited \<notin> set (map rouse (threads p))" by auto
  qed
  have b: "Parking \<notin> set (map rouse (threads p))"
    using assms(2) by (auto simp: mutex_free_def)
  have c: "\<not> tp_done p \<and> threads p \<noteq> []
      \<longrightarrow> (\<exists>u < length (threads p). awake (map rouse (threads p) ! u))"
  proof
    assume h: "\<not> tp_done p \<and> threads p \<noteq> []"
    then have z: "0 < length (threads p)" by simp
    then have m: "threads p ! 0 \<in> set (threads p)" by simp
    have "Parking \<notin> set (threads p)"
      using assms(2) by (simp add: mutex_free_def)
    with m have "threads p ! 0 \<noteq> Parking" by metis
    moreover have "Exited \<notin> set (threads p)"
      using assms(1) h by (simp add: tp_live_def)
    with m have "threads p ! 0 \<noteq> Exited" by metis
    ultimately have "awake (rouse (threads p ! 0))" by (rule awake_rouse)
    then have "awake (map rouse (threads p) ! 0)" using z by simp
    with z show "\<exists>u < length (threads p). awake (map rouse (threads p) ! u)" by blast
  qed
  from a b c show ?thesis
    using Some by (simp add: tp_live_def run_def block_notify_all_def del: set_map)
qed

lemma tp_live_take:
  assumes "tp_live p" and "w < length (threads p)"
    and "threads p ! w = AtWait \<or> threads p ! w = Awake"
  shows "tp_live (take w p)"
proof (cases "queue p \<noteq> [] \<or> tp_done p")
  case True
  have np: "threads p ! w \<noteq> Parking" using assms(3) by auto
  have "tp_live (p\<lparr>threads := (threads p)[w := Has (hd (queue p))]\<rparr>)"
    using assms(1,2) _ np by (rule tp_live_awake_update) simp
  then have h: "tp_live (p\<lparr>queue := tl (queue p), threads := (threads p)[w := Has (hd (queue p))],
      dequeued := dequeued p @ [hd (queue p)]\<rparr>)"
    using assms(2) by (auto simp: tp_live_def)
  have "tp_live (p\<lparr>threads := (threads p)[w := AtLoop]\<rparr>)"
    using assms(1,2) _ np by (rule tp_live_awake_update) simp
  with h True show ?thesis by (simp add: take_def)
next
  case False
  then have q: "queue p = []" and nd: "\<not> tp_done p" by simp_all
  have "Exited \<notin> set ((threads p)[w := Parking])"
    using assms(1) nd by (simp add: tp_live_def not_in_set_update)
  then show ?thesis using False q by (simp add: take_def tp_live_def)
qed

lemma tp_live_park:
  assumes "tp_live p" and "w < length (threads p)" and "threads p ! w = Parking"
  shows "tp_live (p\<lparr>threads := (threads p)[w := Asleep]\<rparr>)"
proof -
  have "Parking \<in> set (threads p)"
    using assms(2,3) by (metis nth_mem)
  then have q: "queue p = []" using assms(1) by (simp add: tp_live_def)
  have "\<not> tp_done p \<longrightarrow> Exited \<notin> set ((threads p)[w := Asleep])"
    using assms(1) by (simp add: tp_live_def not_in_set_update)
  then show ?thesis using q by (simp add: tp_live_def)
qed

lemma tp_live_rouse_all:
  assumes "tp_live p"
  shows "tp_live (block_notify_all (p\<lparr>stopping := Joining\<rparr>))"
proof -
  have a: "\<not> tp_done p \<longrightarrow> Exited \<notin> set (map rouse (threads p))"
    using assms by (auto simp: tp_live_def)
  have b: "Parking \<in> set (map rouse (threads p)) \<longrightarrow> queue p = []"
    using assms by (auto simp: tp_live_def)
  have c: "\<not> tp_done p \<and> queue p \<noteq> [] \<and> threads p \<noteq> []
      \<longrightarrow> (\<exists>u < length (threads p). awake (map rouse (threads p) ! u))"
    using assms by (auto simp: tp_live_def awake_rouse_mono)
  from a b c show ?thesis by (simp add: tp_live_def block_notify_all_def del: set_map)
qed

lemma tp_live_tp_step:
  assumes "tp_live p"
  shows "tp_live (tp_step a p)"
proof (cases a)
  case (Run op)
  then show ?thesis using assms by (simp add: tp_live_run)
next
  case (Test w)
  show ?thesis
  proof (cases "w < length (threads p) \<and> threads p ! w = AtLoop")
    case True
    show ?thesis
    proof (cases "tp_done p")
      case dn: True
      have "Parking \<in> set ((threads p)[w := Exited]) \<longrightarrow> queue p = []"
      proof
        assume "Parking \<in> set ((threads p)[w := Exited])"
        then have "Parking \<in> insert Exited (set (threads p))"
          using set_update_subset_insert by fastforce
        then show "queue p = []" using assms by (simp add: tp_live_def)
      qed
      then show ?thesis using Test True dn by (simp add: tp_live_def)
    next
      case False
      have "tp_live (p\<lparr>threads := (threads p)[w := AtWait]\<rparr>)"
        using assms True by (intro tp_live_awake_update) simp_all
      then show ?thesis using Test True False by simp
    qed
  next
    case False
    then show ?thesis using Test assms by auto
  qed
next
  case (Take w)
  then show ?thesis using assms by (auto simp: tp_live_take)
next
  case (Park w)
  then show ?thesis using assms by (simp add: tp_live_park)
next
  case (Exec w keep)
  show ?thesis
  proof (cases "w < length (threads p)")
    case True
    show ?thesis
    proof (cases "threads p ! w")
      case (Has x)
      have "tp_live (p\<lparr>threads := (threads p)[w := Ran x keep]\<rparr>)"
        using assms True Has by (intro tp_live_awake_update) simp_all
      then have "tp_live (p\<lparr>threads := (threads p)[w := Ran x keep],
          executed := executed p @ [(x, keep)]\<rparr>)"
        by (simp add: tp_live_def)
      then show ?thesis using Exec True Has by simp
    qed (use Exec True assms in simp_all)
  next
    case False
    then show ?thesis using Exec assms by simp
  qed
next
  case (Requeue w)
  show ?thesis
  proof (cases "w < length (threads p)")
    case True
    show ?thesis
    proof (cases "threads p ! w")
      case (Ran x keep)
      have l: "tp_live (p\<lparr>threads := (threads p)[w := AtLoop]\<rparr>)"
        using assms True Ran by (intro tp_live_awake_update) simp_all
      have "mutex_free p \<Longrightarrow> tp_live (p\<lparr>queue := queue p @ [x],
          threads := (threads p)[w := AtLoop]\<rparr>)"
      proof -
        assume "mutex_free p"
        then have "Parking \<notin> set ((threads p)[w := AtLoop])"
          by (simp add: mutex_free_def not_in_set_update)
        then show ?thesis using l True by (auto simp: tp_live_def)
      qed
      then show ?thesis using Requeue True Ran l assms by (simp add: requeue_def)
    qed (use Requeue True assms in simp_all)
  next
    case False
    then show ?thesis using Requeue assms by simp
  qed
next
  case (Rouse w)
  show ?thesis
  proof (cases "w < length (threads p) \<and> threads p ! w = Asleep")
    case True
    have "tp_live (p\<lparr>threads := (threads p)[w := Awake]\<rparr>)"
      using assms True by (intro tp_live_awake_update) simp_all
    then show ?thesis using Rouse True by simp
  next
    case False
    then show ?thesis using Rouse assms by auto
  qed
next
  case SetDone
  then show ?thesis using assms by (simp add: tp_live_def)
next
  case NotifyAll
  then show ?thesis using assms tp_live_rouse_all [OF assms]
    by simp
next
  case JoinClear
  then show ?thesis using assms by (simp add: tp_live_def)
qed

lemma tp_live_step: "tp_live p \<Longrightarrow> tp_live (step a p)"
  by (simp add: step_def tp_live_tp_step)

lemma tp_live_run_sched: "tp_live p \<Longrightarrow> tp_live (tp_run sched p)"
  by (induction sched arbitrary: p) (simp_all add: tp_live_step)

lemma tp_live_init: "tp_live (ThreadPool_init n)"
  by (simp add: tp_live_def ThreadPool_init_def)

text \<open>
  C8. In every state \<open>p\<close> that a schedule reaches from a fresh pool and in which the pool
  still exists, for every worker \<open>w\<close>:
  \<^item> the worker dequeues the front operation when the queue is not empty and \<^verbatim>\<open>_done\<close> is
    false; the only step of a worker that has dequeued \<open>x\<close> is to call \<open>x\<close>, once; the
    only step after the call puts \<open>x\<close> at the tail of the queue if and only if the keep
    flag is true after the call, and the worker is back at the head of its loop;
  \<^item> the operations dequeued are the operations called together with those the workers
    are about to call (each dequeued operation is called exactly once); every
    operation passed to \<^verbatim>\<open>run\<close> is in exactly one place: in the queue, in the hand of a
    worker that is about to call it or to put it back, or dropped after a call that left
    the keep flag false, so a dropped operation is not in the queue again and an
    operation that keeps its flag is never lost;
  \<^item> a worker at the head of its loop that serves the operations \<open>xs\<close> at the front of the
    queue calls each once, in order, and leaves behind them, at the tail, those whose
    flag is true; when all operations of the queue keep their flag, \<open>k\<close> passes of the
    worker call each of them \<open>k\<close> times, for every \<open>k\<close>;
  \<^item> while \<^verbatim>\<open>_done\<close> is false and the queue is not empty some worker is running (it is
    not blocked, not about to block and has not ended), so a queued operation is not
    stranded;
  \<^item> once \<^verbatim>\<open>_done\<close> is set no step dequeues an operation.
\<close>

theorem ThreadPool_worker_cycle:
  assumes "p = tp_run sched (ThreadPool_init n)" and "w < n" and "stopping p \<noteq> Stopped"
  shows "(\<forall>x q. (threads p ! w = AtWait \<or> threads p ! w = Awake) \<and> mutex_free p
              \<and> \<not> tp_done p \<and> queue p = x # q \<longrightarrow>
            step (Take w) p = p\<lparr>queue := q, threads := (threads p)[w := Has x],
                                 dequeued := dequeued p @ [x]\<rparr>)
       \<and> (\<forall>x keep. threads p ! w = Has x \<longrightarrow>
            step (Exec w keep) p = p\<lparr>threads := (threads p)[w := Ran x keep],
                                     executed := executed p @ [(x, keep)]\<rparr>)
       \<and> (\<forall>x keep. threads p ! w = Ran x keep \<and> (keep \<longrightarrow> mutex_free p) \<longrightarrow>
            step (Requeue w) p = p\<lparr>queue := (if keep then queue p @ [x] else queue p),
                                   threads := (threads p)[w := AtLoop]\<rparr>)
       \<and> mset (dequeued p) = in_hand (threads p) + called (executed p)
       \<and> mset (submitted p) = mset (queue p) + in_hand (threads p)
                               + to_requeue (threads p) + dropped (executed p)
       \<and> (\<forall>kp xs rest. threads p ! w = AtLoop \<and> mutex_free p \<and> \<not> tp_done p
              \<and> queue p = xs @ rest \<longrightarrow>
            tp_run (serve w kp xs) p
              = p\<lparr>queue := rest @ filter kp xs, dequeued := dequeued p @ xs,
                  executed := executed p @ map (\<lambda>x. (x, kp x)) xs\<rparr>)
       \<and> (\<forall>kp ys k. threads p ! w = AtLoop \<and> mutex_free p \<and> \<not> tp_done p
              \<and> queue p = ys \<and> (\<forall>y \<in> set ys. kp y) \<longrightarrow>
            tp_run (concat (replicate k (serve w kp ys))) p
              = p\<lparr>dequeued := dequeued p @ concat (replicate k ys),
                  executed := executed p @ concat (replicate k (map (\<lambda>x. (x, kp x)) ys))\<rparr>)
       \<and> (\<not> tp_done p \<and> queue p \<noteq> [] \<longrightarrow> (\<exists>u < n. awake (threads p ! u)))
       \<and> (tp_done p \<longrightarrow> (\<forall>a. dequeued (step a p) = dequeued p))"
proof -
  have inv: "tp_inv p"
    unfolding assms(1) by (rule tp_inv_run) (rule tp_inv_init)
  have "length (threads p) = length (threads (ThreadPool_init n))"
    using assms(3) unfolding assms(1) by (rule length_threads_run)
  then have lenn: "length (threads p) = n"
    by (simp add: ThreadPool_init_def)
  then have len: "w < length (threads p)"
    using assms(2) by simp
  have live: "tp_live p"
    unfolding assms(1) by (rule tp_live_run_sched) (rule tp_live_init)
  have l: "\<not> tp_done p \<and> queue p \<noteq> [] \<longrightarrow> (\<exists>u < n. awake (threads p ! u))"
    using live len lenn by (auto simp: tp_live_def)
  note ns = assms(3)
  have a1: "\<forall>x q. (threads p ! w = AtWait \<or> threads p ! w = Awake) \<and> mutex_free p
              \<and> \<not> tp_done p \<and> queue p = x # q \<longrightarrow>
            step (Take w) p = p\<lparr>queue := q, threads := (threads p)[w := Has x],
                                 dequeued := dequeued p @ [x]\<rparr>"
    using len ns by (auto simp: step_def take_def)
  have a2: "\<forall>x keep. threads p ! w = Has x \<longrightarrow>
            step (Exec w keep) p = p\<lparr>threads := (threads p)[w := Ran x keep],
                                     executed := executed p @ [(x, keep)]\<rparr>"
    using len ns by (simp add: step_def)
  have a3: "\<forall>x keep. threads p ! w = Ran x keep \<and> (keep \<longrightarrow> mutex_free p) \<longrightarrow>
            step (Requeue w) p = p\<lparr>queue := (if keep then queue p @ [x] else queue p),
                                   threads := (threads p)[w := AtLoop]\<rparr>"
    using len ns by (simp add: step_def requeue_def)
  have b1: "mset (dequeued p) = in_hand (threads p) + called (executed p)"
    using inv by (simp add: tp_inv_def)
  have b2: "mset (submitted p) = mset (queue p) + in_hand (threads p)
                               + to_requeue (threads p) + dropped (executed p)"
    using inv ns by (simp add: tp_inv_def)
  have c1: "\<forall>kp xs rest. threads p ! w = AtLoop \<and> mutex_free p \<and> \<not> tp_done p
              \<and> queue p = xs @ rest \<longrightarrow>
            tp_run (serve w kp xs) p
              = p\<lparr>queue := rest @ filter kp xs, dequeued := dequeued p @ xs,
                  executed := executed p @ map (\<lambda>x. (x, kp x)) xs\<rparr>"
    using len ns by (blast intro: serve_pass)
  have c2: "\<forall>kp ys k. threads p ! w = AtLoop \<and> mutex_free p \<and> \<not> tp_done p
              \<and> queue p = ys \<and> (\<forall>y \<in> set ys. kp y) \<longrightarrow>
            tp_run (concat (replicate k (serve w kp ys))) p
              = p\<lparr>dequeued := dequeued p @ concat (replicate k ys),
                  executed := executed p @ concat (replicate k (map (\<lambda>x. (x, kp x)) ys))\<rparr>"
    using len ns by (blast intro: serve_passes)
  have d: "tp_done p \<longrightarrow> (\<forall>a. dequeued (step a p) = dequeued p)"
    by (simp add: done_no_dequeue)
  from a1 a2 a3 b1 b2 c1 c2 l d show ?thesis by blast
qed

lemmas tp_eval = ThreadPool_init_def step_def run_def take_def requeue_def block_notify_all_def
  mutex_free_def

theorem ThreadPool_worker_cycle_witness:
  "tp_run [Run (Some 1), Run (Some 2)] (ThreadPool_init 2)
     = \<lparr>queue = [1, 2], tp_done = False, threads = [AtLoop, AtLoop], stopping = Running,
        submitted = [1, 2], dequeued = [], executed = []\<rparr>
   \<and> tp_run (serve 0 (\<lambda>x. x = 2) [1, 2]) (tp_run [Run (Some 1), Run (Some 2)] (ThreadPool_init 2))
     = \<lparr>queue = [2], tp_done = False, threads = [AtLoop, AtLoop], stopping = Running,
        submitted = [1, 2], dequeued = [1, 2], executed = [(1, False), (2, True)]\<rparr>
   \<and> tp_run (concat (replicate 3 (serve 0 (\<lambda>x. x = 2) [2])))
       (tp_run [Run (Some 1), Run (Some 2), Test 0, Take 0, Exec 0 False, Requeue 0]
          (ThreadPool_init 2))
     = \<lparr>queue = [2], tp_done = False, threads = [AtLoop, AtLoop], stopping = Running,
        submitted = [1, 2], dequeued = [1, 2, 2, 2],
        executed = [(1, False), (2, True), (2, True), (2, True)]\<rparr>
   \<and> step (Take 1) (tp_run [Run (Some 1), Run (Some 2), Test 1] (ThreadPool_init 2))
     = \<lparr>queue = [2], tp_done = False, threads = [AtLoop, Has 1], stopping = Running,
        submitted = [1, 2], dequeued = [1], executed = []\<rparr>
   \<and> step (Exec 1 True) (tp_run [Run (Some 1), Run (Some 2), Test 1, Take 1] (ThreadPool_init 2))
     = \<lparr>queue = [2], tp_done = False, threads = [AtLoop, Ran 1 True], stopping = Running,
        submitted = [1, 2], dequeued = [1], executed = [(1, True)]\<rparr>
   \<and> step (Requeue 1)
       (tp_run [Run (Some 1), Run (Some 2), Test 1, Take 1, Exec 1 True] (ThreadPool_init 2))
     = \<lparr>queue = [2, 1], tp_done = False, threads = [AtLoop, AtLoop], stopping = Running,
        submitted = [1, 2], dequeued = [1], executed = [(1, True)]\<rparr>
   \<and> step (Requeue 1)
       (tp_run [Run (Some 1), Run (Some 2), Test 1, Take 1, Exec 1 False] (ThreadPool_init 2))
     = \<lparr>queue = [2], tp_done = False, threads = [AtLoop, AtLoop], stopping = Running,
        submitted = [1, 2], dequeued = [1], executed = [(1, False)]\<rparr>
   \<and> dequeued (step (Take 1) (tp_run [Run (Some 1), Test 1, SetDone] (ThreadPool_init 2))) = []
   \<and> (\<exists>u < 2. awake (threads (tp_run [Run (Some 1), Run (Some 2)] (ThreadPool_init 2)) ! u))"
proof -
  have z: "(0::nat) < 2" and o: "(1::nat) < 2" by simp_all
  define p0 where "p0 = tp_run [Run (Some 1), Run (Some 2)] (ThreadPool_init 2)"
  have e0: "p0 = \<lparr>queue = [1, 2], tp_done = False, threads = [AtLoop, AtLoop], stopping = Running,
        submitted = [1, 2], dequeued = [], executed = []\<rparr>"
    by (simp add: p0_def tp_eval numeral_2_eq_2)
  have h0: "stopping p0 \<noteq> Stopped" "threads p0 ! 0 = AtLoop" "mutex_free p0" "\<not> tp_done p0"
      "queue p0 = [1, 2] @ []"
    unfolding e0 by (simp_all add: mutex_free_def)
  have "tp_run (serve 0 (\<lambda>x. x = 2) [1, 2]) p0
     = p0\<lparr>queue := [] @ filter (\<lambda>x. x = 2) [1, 2], dequeued := dequeued p0 @ [1, 2],
          executed := executed p0 @ map (\<lambda>x. (x, x = 2)) [1, 2]\<rparr>"
    using ThreadPool_worker_cycle [OF p0_def z h0(1)] h0(2-5) by blast
  then have c1: "tp_run (serve 0 (\<lambda>x. x = 2) [1, 2]) p0
     = \<lparr>queue = [2], tp_done = False, threads = [AtLoop, AtLoop], stopping = Running,
        submitted = [1, 2], dequeued = [1, 2], executed = [(1, False), (2, True)]\<rparr>"
    unfolding e0 by simp
  define p1 where "p1 = tp_run [Run (Some 1), Run (Some 2), Test 0, Take 0, Exec 0 False, Requeue 0]
          (ThreadPool_init 2)"
  have e1: "p1 = \<lparr>queue = [2], tp_done = False, threads = [AtLoop, AtLoop], stopping = Running,
        submitted = [1, 2], dequeued = [1], executed = [(1, False)]\<rparr>"
    by (simp add: p1_def tp_eval numeral_2_eq_2)
  have h1: "stopping p1 \<noteq> Stopped" "threads p1 ! 0 = AtLoop" "mutex_free p1" "\<not> tp_done p1"
      "queue p1 = [2]" "\<forall>y \<in> set [2::nat]. y = 2"
    unfolding e1 by (simp_all add: mutex_free_def)
  have "tp_run (concat (replicate 3 (serve 0 (\<lambda>x. x = 2) [2]))) p1
     = p1\<lparr>dequeued := dequeued p1 @ concat (replicate 3 [2]),
          executed := executed p1 @ concat (replicate 3 (map (\<lambda>x. (x, x = 2)) [2]))\<rparr>"
    using ThreadPool_worker_cycle [OF p1_def z h1(1)] h1(2-6) by blast
  then have c2: "tp_run (concat (replicate 3 (serve 0 (\<lambda>x. x = 2) [2]))) p1
     = \<lparr>queue = [2], tp_done = False, threads = [AtLoop, AtLoop], stopping = Running,
        submitted = [1, 2], dequeued = [1, 2, 2, 2],
        executed = [(1, False), (2, True), (2, True), (2, True)]\<rparr>"
    unfolding e1 by (simp add: numeral_3_eq_3)
  define p2 where "p2 = tp_run [Run (Some 1), Run (Some 2), Test 1] (ThreadPool_init 2)"
  have e2: "p2 = \<lparr>queue = [1, 2], tp_done = False, threads = [AtLoop, AtWait], stopping = Running,
        submitted = [1, 2], dequeued = [], executed = []\<rparr>"
    by (simp add: p2_def tp_eval numeral_2_eq_2)
  have h2: "stopping p2 \<noteq> Stopped" "threads p2 ! 1 = AtWait" "mutex_free p2" "\<not> tp_done p2"
      "queue p2 = 1 # [2]"
    unfolding e2 by (simp_all add: mutex_free_def)
  have "step (Take 1) p2 = p2\<lparr>queue := [2], threads := (threads p2)[1 := Has 1],
      dequeued := dequeued p2 @ [1]\<rparr>"
    using ThreadPool_worker_cycle [OF p2_def o h2(1)] h2(2-5) by blast
  then have c3: "step (Take 1) p2
     = \<lparr>queue = [2], tp_done = False, threads = [AtLoop, Has 1], stopping = Running,
        submitted = [1, 2], dequeued = [1], executed = []\<rparr>"
    unfolding e2 by simp
  define p3 where "p3 = tp_run [Run (Some 1), Run (Some 2), Test 1, Take 1] (ThreadPool_init 2)"
  have e3: "p3 = \<lparr>queue = [2], tp_done = False, threads = [AtLoop, Has 1], stopping = Running,
        submitted = [1, 2], dequeued = [1], executed = []\<rparr>"
    by (simp add: p3_def tp_eval numeral_2_eq_2)
  have h3: "stopping p3 \<noteq> Stopped" "threads p3 ! 1 = Has 1"
    unfolding e3 by simp_all
  have "step (Exec 1 True) p3 = p3\<lparr>threads := (threads p3)[1 := Ran 1 True],
      executed := executed p3 @ [(1, True)]\<rparr>"
    using ThreadPool_worker_cycle [OF p3_def o h3(1)] h3(2) by blast
  then have c4: "step (Exec 1 True) p3
     = \<lparr>queue = [2], tp_done = False, threads = [AtLoop, Ran 1 True], stopping = Running,
        submitted = [1, 2], dequeued = [1], executed = [(1, True)]\<rparr>"
    unfolding e3 by simp
  define p4 where "p4 = tp_run [Run (Some 1), Run (Some 2), Test 1, Take 1, Exec 1 True]
      (ThreadPool_init 2)"
  have e4: "p4 = \<lparr>queue = [2], tp_done = False, threads = [AtLoop, Ran 1 True], stopping = Running,
        submitted = [1, 2], dequeued = [1], executed = [(1, True)]\<rparr>"
    by (simp add: p4_def tp_eval numeral_2_eq_2)
  have h4: "stopping p4 \<noteq> Stopped" "threads p4 ! 1 = Ran 1 True" "mutex_free p4"
    unfolding e4 by (simp_all add: mutex_free_def)
  have "step (Requeue 1) p4 = p4\<lparr>queue := (if True then queue p4 @ [1] else queue p4),
      threads := (threads p4)[1 := AtLoop]\<rparr>"
    using ThreadPool_worker_cycle [OF p4_def o h4(1)] h4(2,3) by blast
  then have c5: "step (Requeue 1) p4
     = \<lparr>queue = [2, 1], tp_done = False, threads = [AtLoop, AtLoop], stopping = Running,
        submitted = [1, 2], dequeued = [1], executed = [(1, True)]\<rparr>"
    unfolding e4 by simp
  define p5 where "p5 = tp_run [Run (Some 1), Run (Some 2), Test 1, Take 1, Exec 1 False]
      (ThreadPool_init 2)"
  have e5: "p5 = \<lparr>queue = [2], tp_done = False, threads = [AtLoop, Ran 1 False], stopping = Running,
        submitted = [1, 2], dequeued = [1], executed = [(1, False)]\<rparr>"
    by (simp add: p5_def tp_eval numeral_2_eq_2)
  have h5: "stopping p5 \<noteq> Stopped" "threads p5 ! 1 = Ran 1 False"
    unfolding e5 by simp_all
  have "step (Requeue 1) p5 = p5\<lparr>queue := (if False then queue p5 @ [1] else queue p5),
      threads := (threads p5)[1 := AtLoop]\<rparr>"
    using ThreadPool_worker_cycle [OF p5_def o h5(1)] h5(2) by blast
  then have c6: "step (Requeue 1) p5
     = \<lparr>queue = [2], tp_done = False, threads = [AtLoop, AtLoop], stopping = Running,
        submitted = [1, 2], dequeued = [1], executed = [(1, False)]\<rparr>"
    unfolding e5 by simp
  define p6 where "p6 = tp_run [Run (Some 1), Test 1, SetDone] (ThreadPool_init 2)"
  have e6: "p6 = \<lparr>queue = [1], tp_done = True, threads = [AtLoop, AtWait], stopping = Signalled,
        submitted = [1], dequeued = [], executed = []\<rparr>"
    by (simp add: p6_def tp_eval numeral_2_eq_2)
  have h6: "stopping p6 \<noteq> Stopped" "tp_done p6" "dequeued p6 = []"
    unfolding e6 by simp_all
  have "dequeued (step (Take 1) p6) = dequeued p6"
    using ThreadPool_worker_cycle [OF p6_def o h6(1)] h6(2) by blast
  then have c7: "dequeued (step (Take 1) p6) = []"
    using h6(3) by simp
  have q0: "queue p0 \<noteq> []"
    unfolding e0 by simp
  have c8: "\<exists>u < 2. awake (threads p0 ! u)"
    using ThreadPool_worker_cycle [OF p0_def z h0(1)] h0(4) q0 by blast
  from e0 c1 c2 c3 c4 c5 c6 c7 c8 show ?thesis
    unfolding p0_def p1_def p2_def p3_def p4_def p5_def p6_def by blast
qed

lemma done_run: "tp_done p \<Longrightarrow> tp_done (tp_run sched p) \<and> dequeued (tp_run sched p) = dequeued p"
proof (induction sched arbitrary: p)
  case Nil
  then show ?case by simp
next
  case (Cons a sched)
  then show ?case by (simp add: done_step done_no_dequeue)
qed

lemma executed_step: "\<exists>new. executed (step a p) = executed p @ new"
  by (cases a)
     (auto simp: step_def run_def take_def requeue_def block_notify_all_def
        split: option.splits worker.splits)

lemma executed_run: "\<exists>new. executed (tp_run sched p) = executed p @ new"
proof (induction sched arbitrary: p)
  case Nil
  then show ?case by simp
next
  case (Cons a sched)
  obtain n1 where n1: "executed (step a p) = executed p @ n1"
    using executed_step by blast
  obtain n2 where n2: "executed (tp_run sched (step a p)) = executed (step a p) @ n2"
    using Cons.IH by blast
  from n1 n2 show ?case by simp
qed

lemma Asleep_neq_rouse [simp]: "Asleep \<noteq> rouse v"
  by (cases v) simp_all

lemma not_Asleep_rouse: "Asleep \<notin> set (map rouse ws)"
  by (induction ws) simp_all

lemma called_append: "called (es @ new) = called es + mset (map fst new)"
  by (simp add: called_def)

text \<open>
  What \<^verbatim>\<open>stopThreads\<close> does when its \<^verbatim>\<open>join\<close>s return. In every reachable state \<open>p\<close>:
  the first statement sets \<^verbatim>\<open>_done\<close>; the broadcast leaves no worker asleep; the joins
  return only when every worker has left its loop, and then the threads and the queue
  are cleared and nothing is called; once \<^verbatim>\<open>_done\<close> is set no operation is dequeued, so
  the operations called from then on are among those the workers had already dequeued;
  and after the destructor nothing changes any more.
\<close>

lemma stopThreads_when_joined:
  assumes "p = tp_run sched (ThreadPool_init n)"
  shows "(stopping p = Running \<longrightarrow> tp_done (step SetDone p))
       \<and> (stopping p = Signalled \<longrightarrow> Asleep \<notin> set (threads (step NotifyAll p)))
       \<and> (step JoinClear p \<noteq> p \<longrightarrow> (\<forall>w \<in> set (threads p). w = Exited)
            \<and> step JoinClear p = p\<lparr>threads := [], queue := [], stopping := Stopped\<rparr>)
       \<and> (tp_done p \<longrightarrow> dequeued (tp_run rest p) = dequeued p
            \<and> (\<exists>new. executed (tp_run rest p) = executed p @ new
                  \<and> mset (map fst new) \<subseteq># in_hand (threads p)))
       \<and> (stopping p = Stopped \<longrightarrow> threads p = [] \<and> queue p = [] \<and> tp_run rest p = p)"
proof -
  have inv: "tp_inv p"
    unfolding assms by (rule tp_inv_run) (rule tp_inv_init)
  have inv': "tp_inv (tp_run rest p)"
    using inv by (rule tp_inv_run)
  have a: "stopping p = Running \<longrightarrow> tp_done (step SetDone p)"
    by (simp add: step_def)
  have b: "stopping p = Signalled \<longrightarrow> Asleep \<notin> set (threads (step NotifyAll p))"
    by (simp add: step_def block_notify_all_def not_Asleep_rouse del: set_map)
  have c: "step JoinClear p \<noteq> p \<longrightarrow> (\<forall>w \<in> set (threads p). w = Exited)
            \<and> step JoinClear p = p\<lparr>threads := [], queue := [], stopping := Stopped\<rparr>"
    by (auto simp: step_def)
  have d: "tp_done p \<longrightarrow> dequeued (tp_run rest p) = dequeued p
            \<and> (\<exists>new. executed (tp_run rest p) = executed p @ new
                  \<and> mset (map fst new) \<subseteq># in_hand (threads p))"
  proof
    assume dn: "tp_done p"
    then have dq: "dequeued (tp_run rest p) = dequeued p"
      by (simp add: done_run)
    obtain new where new: "executed (tp_run rest p) = executed p @ new"
      using executed_run by blast
    have "mset (dequeued p) = in_hand (threads p) + called (executed p)"
      using inv by (simp add: tp_inv_def)
    moreover have "mset (dequeued p)
        = in_hand (threads (tp_run rest p)) + (called (executed p) + mset (map fst new))"
      using inv' by (simp add: tp_inv_def dq new called_append)
    ultimately have "in_hand (threads p) = in_hand (threads (tp_run rest p)) + mset (map fst new)"
      by (simp add: ac_simps)
    then have "mset (map fst new) \<subseteq># in_hand (threads p)"
      by simp
    with dq new show "dequeued (tp_run rest p) = dequeued p
            \<and> (\<exists>new. executed (tp_run rest p) = executed p @ new
                  \<and> mset (map fst new) \<subseteq># in_hand (threads p))"
      by blast
  qed
  have e: "stopping p = Stopped \<longrightarrow> threads p = [] \<and> queue p = [] \<and> tp_run rest p = p"
    using inv by (simp add: tp_inv_def stopped_run)
  from a b c d e show ?thesis by blast
qed

text \<open>The joins can return: a worker that is asleep when the destructor starts is woken
  and leaves its loop, and the destructor ends; an operation queued after \<^verbatim>\<open>_done\<close> was set
  is discarded and not called.\<close>

lemma stopThreads_returns_example:
  "tp_run [Test 0, Take 0, Park 0, SetDone, Run (Some 7), NotifyAll, Take 0, Test 0, JoinClear]
     (ThreadPool_init 1)
   = \<lparr>queue = [], tp_done = True, threads = [], stopping = Stopped,
      submitted = [7], dequeued = [], executed = []\<rparr>"
  by (simp add: tp_eval)

lemma asleep_stuck:
  "own_step a \<Longrightarrow>
   step a \<lparr>queue = [], tp_done = True, threads = [Asleep], stopping = Joining,
           submitted = [], dequeued = [], executed = []\<rparr>
     = \<lparr>queue = [], tp_done = True, threads = [Asleep], stopping = Joining,
        submitted = [], dequeued = [], executed = []\<rparr>"
  by (cases a) (auto simp: step_def)

text \<open>
  C9. A pool with one worker and an empty queue. The worker tests \<^verbatim>\<open>_done\<close>, takes
  \<^verbatim>\<open>_queueMutex\<close> and finds the predicate of the wait false; before it blocks, the
  destructor sets \<^verbatim>\<open>_done\<close> and broadcasts (neither takes the mutex, unlike \<^verbatim>\<open>run\<close>);
  then the worker blocks. From there, whatever steps the worker and the destructor
  take, the worker stays asleep and the destructor stays in \<^verbatim>\<open>join\<close>: the worker was
  not woken, it is not joined, and \<^verbatim>\<open>stopThreads\<close> does not return. Only a call of
  \<^verbatim>\<open>run\<close> from another thread or a spurious wake-up ends the wait.
\<close>

theorem stopThreads_lost_wakeup:
  "tp_run [Test 0, Take 0, SetDone, NotifyAll, Park 0] (ThreadPool_init 1)
     = \<lparr>queue = [], tp_done = True, threads = [Asleep], stopping = Joining,
        submitted = [], dequeued = [], executed = []\<rparr>
   \<and> tp_run (filter own_step sched)
       (tp_run [Test 0, Take 0, SetDone, NotifyAll, Park 0] (ThreadPool_init 1))
     = \<lparr>queue = [], tp_done = True, threads = [Asleep], stopping = Joining,
        submitted = [], dequeued = [], executed = []\<rparr>"
proof -
  have e: "tp_run [Test 0, Take 0, SetDone, NotifyAll, Park 0] (ThreadPool_init 1)
     = \<lparr>queue = [], tp_done = True, threads = [Asleep], stopping = Joining,
        submitted = [], dequeued = [], executed = []\<rparr>"
    by (simp add: tp_eval)
  have "tp_run (filter own_step sched)
       \<lparr>queue = [], tp_done = True, threads = [Asleep], stopping = Joining,
        submitted = [], dequeued = [], executed = []\<rparr>
     = \<lparr>queue = [], tp_done = True, threads = [Asleep], stopping = Joining,
        submitted = [], dequeued = [], executed = []\<rparr>"
    by (induction sched) (simp_all add: asleep_stuck)
  with e show ?thesis by (simp only: simp_thms)
qed

end
